theory Spec2Isabelle
  imports Main
begin

section \<open>The key-value backend\<close>

text \<open>
  All state of the server lives in one key-value namespace (\<^verbatim>\<open>env.VAULT\<close>).  Keys are
  strings built from a fixed prefix and an id.  The values are JSON texts or plain strings;
  here a value is the datum that \<^verbatim>\<open>JSON.stringify\<close> wrote, so that
  \<^verbatim>\<open>JSON.parse\<close> is the projection back.  Every prefix is written with one kind of
  datum only, so a projection that meets another kind of datum (which no run of the server
  produces) answers as if the key were absent.

  Times are milliseconds since the epoch, as \<^verbatim>\<open>Date.now()\<close> gives them.  An ISO date
  text (\<^verbatim>\<open>new Date().toISOString()\<close>) is represented by the millisecond count it
  encodes; the encoding is injective and order preserving.  One call of a service method or
  of a handler reads one clock value \<open>now\<close>.

  An entry written with \<^verbatim>\<open>expirationTtl\<close> (seconds) disappears once that time has
  passed; an entry written without it stays until deleted.  The field \<open>writes\<close> is a
  trace of the write calls (\<^verbatim>\<open>put\<close>, \<^verbatim>\<open>delete\<close>) issued so far, oldest first; the
  program cannot read it.
\<close>

datatype json = JNull | JBool bool | JNum int | JStr string
  | JArr "json list" | JObj "(string \<times> json) list"

record user =
  user_id :: string
  user_email :: string
  user_name :: string
  user_masterPasswordHash :: string
  user_key :: string
  user_privateKey :: "string option"
  user_publicKey :: "string option"
  user_kdfType :: nat
  user_kdfIterations :: nat
  user_kdfMemory :: "nat option"
  user_kdfParallelism :: "nat option"
  user_securityStamp :: string
  user_createdAt :: nat
  user_updatedAt :: nat

text \<open>
  The \<^verbatim>\<open>Cipher\<close> interface declares \<^verbatim>\<open>favorite\<close> a boolean, but
  \<^verbatim>\<open>handlePartialUpdateCipher\<close> stores whatever the body carries, \<^verbatim>\<open>null\<close> included;
  \<open>None\<close> is \<^verbatim>\<open>null\<close>.
\<close>

record cipher =
  cipher_id :: string
  cipher_userId :: string
  cipher_type :: nat
  cipher_folderId :: "string option"
  cipher_name :: string
  cipher_notes :: "string option"
  cipher_favorite :: "bool option"
  cipher_login :: "json option"
  cipher_card :: "json option"
  cipher_identity :: "json option"
  cipher_secureNote :: "json option"
  cipher_fields :: "json option"
  cipher_passwordHistory :: "json option"
  cipher_reprompt :: nat
  cipher_createdAt :: nat
  cipher_updatedAt :: nat
  cipher_deletedAt :: "nat option"

record folder =
  folder_id :: string
  folder_userId :: string
  folder_name :: string
  folder_createdAt :: nat
  folder_updatedAt :: nat

record attachment =
  attachment_id :: string
  attachment_cipherId :: string
  attachment_fileName :: string
  attachment_size :: nat
  attachment_sizeName :: string
  attachment_key :: "string option"

record login_record =
  attempts :: nat
  lockedUntil :: "nat option"

datatype kvval =
    VText string
  | VUser user
  | VCipher cipher
  | VFolder folder
  | VAttachment attachment
  | VIds "string list"
  | VAttempt login_record
  | VDate nat
  | VCount nat

datatype kvop = Put string | Delete string

record kvstore =
  kv :: "string \<rightharpoonup> (kvval \<times> nat option)"
  writes :: "kvop list"

definition kv_get :: "kvstore \<Rightarrow> nat \<Rightarrow> string \<Rightarrow> kvval option" where
  "kv_get s now k =
     (case kv s k of
        None \<Rightarrow> None
      | Some (v, None) \<Rightarrow> Some v
      | Some (v, Some e) \<Rightarrow> (if now < e then Some v else None))"

definition kv_put :: "kvstore \<Rightarrow> string \<Rightarrow> kvval \<Rightarrow> kvstore" where
  "kv_put s k v = s\<lparr>kv := (kv s)(k \<mapsto> (v, None)), writes := writes s @ [Put k]\<rparr>"

definition kv_put_ttl :: "kvstore \<Rightarrow> nat \<Rightarrow> string \<Rightarrow> kvval \<Rightarrow> nat \<Rightarrow> kvstore" where
  "kv_put_ttl s now k v ttl =
     s\<lparr>kv := (kv s)(k \<mapsto> (v, Some (now + ttl * 1000))), writes := writes s @ [Put k]\<rparr>"

definition kv_delete :: "kvstore \<Rightarrow> string \<Rightarrow> kvstore" where
  "kv_delete s k = s\<lparr>kv := (kv s)(k := None), writes := writes s @ [Delete k]\<rparr>"

definition empty_store :: kvstore where
  "empty_store = \<lparr>kv = Map.empty, writes = []\<rparr>"

text \<open>
  A \<open>char\<close> stands for a UTF-16 code unit below 256 (the Latin-1 range); texts with
  other code units are outside the type \<open>string\<close>.  On this range
  \<^verbatim>\<open>String.prototype.toLowerCase\<close> maps the capitals \<^verbatim>\<open>A\<close> to \<^verbatim>\<open>Z\<close> (65 to 90) and
  U+00C0 to U+00DE without the multiplication sign U+00D7 (192 to 222 without 215) to the
  code unit 32 higher, and leaves every other code unit as it is.
\<close>

definition lower_char :: "char \<Rightarrow> char" where
  "lower_char c =
     (let n = (of_char c :: nat)
      in if (65 \<le> n \<and> n \<le> 90) \<or> (192 \<le> n \<and> n \<le> 222 \<and> n \<noteq> 215)
         then char_of (n + 32) else c)"

definition toLowerCase :: "string \<Rightarrow> string" where
  "toLowerCase s = map lower_char s"

text \<open>\<^verbatim>\<open>Number.prototype.toString\<close> on a natural number: its decimal digits.\<close>

fun string_of_nat :: "nat \<Rightarrow> string" where
  "string_of_nat n =
     (if n < 10 then [char_of (48 + n)]
      else string_of_nat (n div 10) @ [char_of (48 + n mod 10)])"

declare string_of_nat.simps [simp del]

section \<open>RateLimitService (services/ratelimit)\<close>

definition LOGIN_MAX_ATTEMPTS :: nat where "LOGIN_MAX_ATTEMPTS = 5"
definition LOGIN_LOCKOUT_MINUTES :: nat where "LOGIN_LOCKOUT_MINUTES = 15"
definition API_REQUESTS_PER_MINUTE :: nat where "API_REQUESTS_PER_MINUTE = 60"
definition API_WINDOW_SECONDS :: nat where "API_WINDOW_SECONDS = 60"

definition LOGIN_ATTEMPTS_key :: "string \<Rightarrow> string" where
  "LOGIN_ATTEMPTS_key email = ''ratelimit:login:'' @ toLowerCase email"

definition API_RATE_key :: "string \<Rightarrow> nat \<Rightarrow> string" where
  "API_RATE_key identifier windowStart =
     ''ratelimit:api:'' @ identifier @ '':'' @ string_of_nat windowStart"

record login_check =
  allowed :: bool
  remainingAttempts :: int
  retryAfterSeconds :: "nat option"

text \<open>
  \<^verbatim>\<open>record.lockedUntil && ...\<close>: the field is truthy when it is present and not zero.
  \<^verbatim>\<open>Math.ceil((lockedUntil - now) / 1000)\<close> is taken where \<open>lockedUntil > now\<close>.
\<close>

definition lock_set :: "login_record \<Rightarrow> bool" where
  "lock_set r = (case lockedUntil r of None \<Rightarrow> False | Some l \<Rightarrow> l \<noteq> 0)"

definition ceil_seconds :: "nat \<Rightarrow> nat" where
  "ceil_seconds ms = (ms + 999) div 1000"

definition get_attempt :: "kvstore \<Rightarrow> nat \<Rightarrow> string \<Rightarrow> login_record option" where
  "get_attempt s now key =
     (case kv_get s now key of Some (VAttempt r) \<Rightarrow> Some r | _ \<Rightarrow> None)"

definition checkLoginAttempt :: "kvstore \<Rightarrow> nat \<Rightarrow> string \<Rightarrow> login_check \<times> kvstore" where
  "checkLoginAttempt s now email =
     (let key = LOGIN_ATTEMPTS_key email in
      case get_attempt s now key of
        None \<Rightarrow>
          (\<lparr>allowed = True, remainingAttempts = int LOGIN_MAX_ATTEMPTS,
            retryAfterSeconds = None\<rparr>, s)
      | Some r \<Rightarrow>
          if lock_set r \<and> the (lockedUntil r) > now then
            (\<lparr>allowed = False, remainingAttempts = 0,
              retryAfterSeconds = Some (ceil_seconds (the (lockedUntil r) - now))\<rparr>, s)
          else if lock_set r \<and> the (lockedUntil r) \<le> now then
            (\<lparr>allowed = True, remainingAttempts = int LOGIN_MAX_ATTEMPTS,
              retryAfterSeconds = None\<rparr>, kv_delete s key)
          else
            (\<lparr>allowed = True,
              remainingAttempts = int LOGIN_MAX_ATTEMPTS - int (attempts r),
              retryAfterSeconds = None\<rparr>, s))"

record failed_login =
  locked :: bool
  fl_retryAfterSeconds :: "nat option"

definition recordFailedLogin :: "kvstore \<Rightarrow> nat \<Rightarrow> string \<Rightarrow> failed_login \<times> kvstore" where
  "recordFailedLogin s now email =
     (let key = LOGIN_ATTEMPTS_key email;
          r = (case get_attempt s now key of
                 Some r0 \<Rightarrow> r0\<lparr>attempts := attempts r0 + 1\<rparr>
               | None \<Rightarrow> \<lparr>attempts = 1, lockedUntil = None\<rparr>)
      in if attempts r \<ge> LOGIN_MAX_ATTEMPTS then
           (\<lparr>locked = True, fl_retryAfterSeconds = Some (LOGIN_LOCKOUT_MINUTES * 60)\<rparr>,
            kv_put_ttl s now key
              (VAttempt (r\<lparr>lockedUntil := Some (now + LOGIN_LOCKOUT_MINUTES * 60 * 1000)\<rparr>))
              (LOGIN_LOCKOUT_MINUTES * 60 + 60))
         else
           (\<lparr>locked = False, fl_retryAfterSeconds = None\<rparr>,
            kv_put_ttl s now key (VAttempt r) (LOGIN_LOCKOUT_MINUTES * 60)))"

definition clearLoginAttempts :: "kvstore \<Rightarrow> string \<Rightarrow> kvstore" where
  "clearLoginAttempts s email = kv_delete s (LOGIN_ATTEMPTS_key email)"

record api_check =
  api_allowed :: bool
  api_remaining :: nat
  api_retryAfterSeconds :: "nat option"

definition windowStart :: "nat \<Rightarrow> nat" where
  "windowStart now_s = now_s - now_s mod API_WINDOW_SECONDS"

definition get_count :: "kvstore \<Rightarrow> nat \<Rightarrow> string \<Rightarrow> nat" where
  "get_count s now key = (case kv_get s now key of Some (VCount c) \<Rightarrow> c | _ \<Rightarrow> 0)"

definition checkApiRateLimit :: "kvstore \<Rightarrow> nat \<Rightarrow> string \<Rightarrow> api_check" where
  "checkApiRateLimit s now_ms identifier =
     (let now = now_ms div 1000;
          key = API_RATE_key identifier (windowStart now);
          count = get_count s now_ms key
      in if count \<ge> API_REQUESTS_PER_MINUTE then
           \<lparr>api_allowed = False, api_remaining = 0,
            api_retryAfterSeconds = Some (API_WINDOW_SECONDS - now mod API_WINDOW_SECONDS)\<rparr>
         else
           \<lparr>api_allowed = True, api_remaining = API_REQUESTS_PER_MINUTE - count,
            api_retryAfterSeconds = None\<rparr>)"

definition incrementApiCount :: "kvstore \<Rightarrow> nat \<Rightarrow> string \<Rightarrow> kvstore" where
  "incrementApiCount s now_ms identifier =
     (let now = now_ms div 1000;
          key = API_RATE_key identifier (windowStart now);
          count = get_count s now_ms key
      in kv_put_ttl s now_ms key (VCount (count + 1)) (API_WINDOW_SECONDS + 10))"


section \<open>StorageService (services/storage)\<close>

definition CONFIG_REGISTERED :: string where "CONFIG_REGISTERED = ''config:registered''"
definition USER_key :: "string \<Rightarrow> string" where "USER_key email = ''user:'' @ email"
definition USERID_key :: "string \<Rightarrow> string" where "USERID_key uid = ''userid:'' @ uid"
definition CIPHER_key :: "string \<Rightarrow> string" where "CIPHER_key cid = ''cipher:'' @ cid"
definition FOLDER_key :: "string \<Rightarrow> string" where "FOLDER_key fid = ''folder:'' @ fid"
definition ATTACHMENT_key :: "string \<Rightarrow> string" where
  "ATTACHMENT_key aid = ''attachment:'' @ aid"
definition CIPHERS_INDEX_key :: "string \<Rightarrow> string" where
  "CIPHERS_INDEX_key uid = ''index:ciphers:'' @ uid"
definition FOLDERS_INDEX_key :: "string \<Rightarrow> string" where
  "FOLDERS_INDEX_key uid = ''index:folders:'' @ uid"
definition ATTACHMENTS_INDEX_key :: "string \<Rightarrow> string" where
  "ATTACHMENTS_INDEX_key cid = ''index:attachments:'' @ cid"
definition REFRESH_TOKEN_key :: "string \<Rightarrow> string" where
  "REFRESH_TOKEN_key token = ''refresh:'' @ token"
definition REVISION_DATE_key :: "string \<Rightarrow> string" where
  "REVISION_DATE_key uid = ''revision:'' @ uid"

definition isRegistered :: "kvstore \<Rightarrow> nat \<Rightarrow> bool" where
  "isRegistered s now = (kv_get s now CONFIG_REGISTERED = Some (VText ''true''))"

definition setRegistered :: "kvstore \<Rightarrow> kvstore" where
  "setRegistered s = kv_put s CONFIG_REGISTERED (VText ''true'')"

definition getUser :: "kvstore \<Rightarrow> nat \<Rightarrow> string \<Rightarrow> user option" where
  "getUser s now email =
     (case kv_get s now (USER_key (toLowerCase email)) of Some (VUser u) \<Rightarrow> Some u | _ \<Rightarrow> None)"

definition getUserById :: "kvstore \<Rightarrow> nat \<Rightarrow> string \<Rightarrow> user option" where
  "getUserById s now uid =
     (case kv_get s now (USERID_key uid) of
        Some (VText email) \<Rightarrow> (if email = [] then None else getUser s now email)
      | _ \<Rightarrow> None)"

definition saveUser :: "kvstore \<Rightarrow> user \<Rightarrow> kvstore" where
  "saveUser s u =
     kv_put (kv_put s (USER_key (toLowerCase (user_email u))) (VUser u))
       (USERID_key (user_id u)) (VText (toLowerCase (user_email u)))"

definition getCipher :: "kvstore \<Rightarrow> nat \<Rightarrow> string \<Rightarrow> cipher option" where
  "getCipher s now cid =
     (case kv_get s now (CIPHER_key cid) of Some (VCipher c) \<Rightarrow> Some c | _ \<Rightarrow> None)"

definition getCipherIds :: "kvstore \<Rightarrow> nat \<Rightarrow> string \<Rightarrow> string list" where
  "getCipherIds s now uid =
     (case kv_get s now (CIPHERS_INDEX_key uid) of Some (VIds ids) \<Rightarrow> ids | _ \<Rightarrow> [])"

definition saveCipher :: "kvstore \<Rightarrow> nat \<Rightarrow> cipher \<Rightarrow> kvstore" where
  "saveCipher s now c =
     (let s1 = kv_put s (CIPHER_key (cipher_id c)) (VCipher c);
          index = getCipherIds s1 now (cipher_userId c)
      in if cipher_id c \<notin> set index
         then kv_put s1 (CIPHERS_INDEX_key (cipher_userId c)) (VIds (index @ [cipher_id c]))
         else s1)"

definition deleteCipher :: "kvstore \<Rightarrow> nat \<Rightarrow> string \<Rightarrow> string \<Rightarrow> kvstore" where
  "deleteCipher s now cid uid =
     (let s1 = kv_delete s (CIPHER_key cid);
          index = getCipherIds s1 now uid;
          newIndex = filter (\<lambda>x. x \<noteq> cid) index
      in kv_put s1 (CIPHERS_INDEX_key uid) (VIds newIndex))"

fun getAllCiphers_loop :: "kvstore \<Rightarrow> nat \<Rightarrow> string list \<Rightarrow> cipher list \<Rightarrow> cipher list" where
  "getAllCiphers_loop s now [] ciphers = ciphers"
| "getAllCiphers_loop s now (cid # ids) ciphers =
     (case getCipher s now cid of
        Some c \<Rightarrow> getAllCiphers_loop s now ids (ciphers @ [c])
      | None \<Rightarrow> getAllCiphers_loop s now ids ciphers)"

definition getAllCiphers :: "kvstore \<Rightarrow> nat \<Rightarrow> string \<Rightarrow> cipher list" where
  "getAllCiphers s now uid = getAllCiphers_loop s now (getCipherIds s now uid) []"

definition getFolder :: "kvstore \<Rightarrow> nat \<Rightarrow> string \<Rightarrow> folder option" where
  "getFolder s now fid =
     (case kv_get s now (FOLDER_key fid) of Some (VFolder f) \<Rightarrow> Some f | _ \<Rightarrow> None)"

definition getFolderIds :: "kvstore \<Rightarrow> nat \<Rightarrow> string \<Rightarrow> string list" where
  "getFolderIds s now uid =
     (case kv_get s now (FOLDERS_INDEX_key uid) of Some (VIds ids) \<Rightarrow> ids | _ \<Rightarrow> [])"

definition saveFolder :: "kvstore \<Rightarrow> nat \<Rightarrow> folder \<Rightarrow> kvstore" where
  "saveFolder s now f =
     (let s1 = kv_put s (FOLDER_key (folder_id f)) (VFolder f);
          index = getFolderIds s1 now (folder_userId f)
      in if folder_id f \<notin> set index
         then kv_put s1 (FOLDERS_INDEX_key (folder_userId f)) (VIds (index @ [folder_id f]))
         else s1)"

definition deleteFolder :: "kvstore \<Rightarrow> nat \<Rightarrow> string \<Rightarrow> string \<Rightarrow> kvstore" where
  "deleteFolder s now fid uid =
     (let s1 = kv_delete s (FOLDER_key fid);
          index = getFolderIds s1 now uid;
          newIndex = filter (\<lambda>x. x \<noteq> fid) index
      in kv_put s1 (FOLDERS_INDEX_key uid) (VIds newIndex))"

fun getAllFolders_loop :: "kvstore \<Rightarrow> nat \<Rightarrow> string list \<Rightarrow> folder list \<Rightarrow> folder list" where
  "getAllFolders_loop s now [] folders = folders"
| "getAllFolders_loop s now (fid # ids) folders =
     (case getFolder s now fid of
        Some f \<Rightarrow> getAllFolders_loop s now ids (folders @ [f])
      | None \<Rightarrow> getAllFolders_loop s now ids folders)"

definition getAllFolders :: "kvstore \<Rightarrow> nat \<Rightarrow> string \<Rightarrow> folder list" where
  "getAllFolders s now uid = getAllFolders_loop s now (getFolderIds s now uid) []"

definition saveRefreshToken :: "kvstore \<Rightarrow> nat \<Rightarrow> string \<Rightarrow> string \<Rightarrow> kvstore" where
  "saveRefreshToken s now token uid =
     kv_put_ttl s now (REFRESH_TOKEN_key token) (VText uid) (30 * 24 * 60 * 60)"

definition getRefreshTokenUserId :: "kvstore \<Rightarrow> nat \<Rightarrow> string \<Rightarrow> string option" where
  "getRefreshTokenUserId s now token =
     (case kv_get s now (REFRESH_TOKEN_key token) of Some (VText uid) \<Rightarrow> Some uid | _ \<Rightarrow> None)"

definition deleteRefreshToken :: "kvstore \<Rightarrow> string \<Rightarrow> kvstore" where
  "deleteRefreshToken s token = kv_delete s (REFRESH_TOKEN_key token)"

definition getRevisionDate :: "kvstore \<Rightarrow> nat \<Rightarrow> string \<Rightarrow> nat" where
  "getRevisionDate s now uid =
     (case kv_get s now (REVISION_DATE_key uid) of Some (VDate d) \<Rightarrow> d | _ \<Rightarrow> now)"

definition updateRevisionDate :: "kvstore \<Rightarrow> nat \<Rightarrow> string \<Rightarrow> nat \<times> kvstore" where
  "updateRevisionDate s now uid = (now, kv_put s (REVISION_DATE_key uid) (VDate now))"

fun bulkMoveCiphers_loop ::
  "kvstore \<Rightarrow> nat \<Rightarrow> string list \<Rightarrow> string option \<Rightarrow> string \<Rightarrow> kvstore" where
  "bulkMoveCiphers_loop s now [] folderId uid = s"
| "bulkMoveCiphers_loop s now (cid # ids) folderId uid =
     (case getCipher s now cid of
        Some c \<Rightarrow>
          if cipher_userId c = uid
          then bulkMoveCiphers_loop
                 (saveCipher s now (c\<lparr>cipher_folderId := folderId, cipher_updatedAt := now\<rparr>))
                 now ids folderId uid
          else bulkMoveCiphers_loop s now ids folderId uid
      | None \<Rightarrow> bulkMoveCiphers_loop s now ids folderId uid)"

definition bulkMoveCiphers ::
  "kvstore \<Rightarrow> nat \<Rightarrow> string list \<Rightarrow> string option \<Rightarrow> string \<Rightarrow> kvstore" where
  "bulkMoveCiphers s now ids folderId uid =
     snd (updateRevisionDate (bulkMoveCiphers_loop s now ids folderId uid) now uid)"

definition getAttachment :: "kvstore \<Rightarrow> nat \<Rightarrow> string \<Rightarrow> attachment option" where
  "getAttachment s now aid =
     (case kv_get s now (ATTACHMENT_key aid) of Some (VAttachment a) \<Rightarrow> Some a | _ \<Rightarrow> None)"

definition saveAttachment :: "kvstore \<Rightarrow> attachment \<Rightarrow> kvstore" where
  "saveAttachment s a = kv_put s (ATTACHMENT_key (attachment_id a)) (VAttachment a)"

definition deleteAttachment :: "kvstore \<Rightarrow> string \<Rightarrow> kvstore" where
  "deleteAttachment s aid = kv_delete s (ATTACHMENT_key aid)"

definition getAttachmentIdsByCipher :: "kvstore \<Rightarrow> nat \<Rightarrow> string \<Rightarrow> string list" where
  "getAttachmentIdsByCipher s now cid =
     (case kv_get s now (ATTACHMENTS_INDEX_key cid) of Some (VIds ids) \<Rightarrow> ids | _ \<Rightarrow> [])"

definition addAttachmentToCipher :: "kvstore \<Rightarrow> nat \<Rightarrow> string \<Rightarrow> string \<Rightarrow> kvstore" where
  "addAttachmentToCipher s now cid aid =
     (let ids = getAttachmentIdsByCipher s now cid
      in if aid \<notin> set ids
         then kv_put s (ATTACHMENTS_INDEX_key cid) (VIds (ids @ [aid]))
         else s)"

definition removeAttachmentFromCipher :: "kvstore \<Rightarrow> nat \<Rightarrow> string \<Rightarrow> string \<Rightarrow> kvstore" where
  "removeAttachmentFromCipher s now cid aid =
     (let ids = getAttachmentIdsByCipher s now cid;
          newIds = filter (\<lambda>x. x \<noteq> aid) ids
      in kv_put s (ATTACHMENTS_INDEX_key cid) (VIds newIds))"

definition deleteAllAttachmentsByCipher :: "kvstore \<Rightarrow> nat \<Rightarrow> string \<Rightarrow> kvstore" where
  "deleteAllAttachmentsByCipher s now cid =
     kv_delete (foldl deleteAttachment s (getAttachmentIdsByCipher s now cid))
       (ATTACHMENTS_INDEX_key cid)"

definition updateCipherRevisionDate :: "kvstore \<Rightarrow> nat \<Rightarrow> string \<Rightarrow> kvstore" where
  "updateCipherRevisionDate s now cid =
     (case getCipher s now cid of
        Some c \<Rightarrow>
          snd (updateRevisionDate (saveCipher s now (c\<lparr>cipher_updatedAt := now\<rparr>)) now
                 (cipher_userId c))
      | None \<Rightarrow> s)"


section \<open>Responses (utils/response)\<close>

text \<open>
  A response is its status and its body.  The CORS and content-type headers that
  \<^verbatim>\<open>jsonResponse\<close> adds to every response are left out; the body of the rate-limit
  response carries the number that the source also writes into the \<^verbatim>\<open>Retry-After\<close>
  header.  Of a profile and a cipher response the fields copied from the stored record are
  kept, the constant ones are left out.
\<close>

record profile_response =
  pr_id :: string
  pr_name :: string
  pr_email :: string
  pr_key :: string
  pr_privateKey :: "string option"
  pr_securityStamp :: string
  pr_creationDate :: nat

record folder_response =
  fr_id :: string
  fr_name :: string
  fr_revisionDate :: nat

record cipher_response =
  cr_id :: string
  cr_folderId :: "string option"
  cr_type :: nat
  cr_name :: string
  cr_notes :: "string option"
  cr_favorite :: "bool option"
  cr_login :: "json option"
  cr_card :: "json option"
  cr_identity :: "json option"
  cr_secureNote :: "json option"
  cr_fields :: "json option"
  cr_passwordHistory :: "json option"
  cr_reprompt :: nat
  cr_creationDate :: nat
  cr_revisionDate :: nat
  cr_deletedDate :: "nat option"
  cr_attachments :: "attachment list option"

datatype payload =
    NoBody
  | TextBody string
  | ErrorBody string
  | SuccessBody
  | TimestampBody nat
  | ProfileBody profile_response
  | FolderBody folder_response
  | FolderListBody "folder_response list"
  | CipherBody cipher_response
  | RateLimitBody nat

record response =
  status :: nat
  payload :: payload

definition jsonResponse :: "payload \<Rightarrow> nat \<Rightarrow> response" where
  "jsonResponse data st = \<lparr>status = st, payload = data\<rparr>"

definition errorResponse :: "string \<Rightarrow> nat \<Rightarrow> response" where
  "errorResponse message st = jsonResponse (ErrorBody message) st"

text \<open>
  A JavaScript value that may be \<^verbatim>\<open>undefined\<close> or \<^verbatim>\<open>null\<close>.  A request body is
  \<open>None\<close> when \<^verbatim>\<open>request.json()\<close> throws.
\<close>

datatype 'a js = Undefined | Null | Val 'a

definition truthy_str :: "string option \<Rightarrow> bool" where
  "truthy_str x = (case x of None \<Rightarrow> False | Some v \<Rightarrow> v \<noteq> [])"

section \<open>Folder handlers (handlers/folders)\<close>

definition folderToResponse :: "folder \<Rightarrow> folder_response" where
  "folderToResponse f =
     \<lparr>fr_id = folder_id f, fr_name = folder_name f, fr_revisionDate = folder_updatedAt f\<rparr>"

record folder_body =
  fb_name :: "string option"

definition handleGetFolders :: "kvstore \<Rightarrow> nat \<Rightarrow> string \<Rightarrow> response" where
  "handleGetFolders s now userId =
     jsonResponse (FolderListBody (map folderToResponse (getAllFolders s now userId))) 200"

definition handleGetFolder :: "kvstore \<Rightarrow> nat \<Rightarrow> string \<Rightarrow> string \<Rightarrow> response" where
  "handleGetFolder s now userId fid =
     (case getFolder s now fid of
        None \<Rightarrow> errorResponse ''Folder not found'' 404
      | Some f \<Rightarrow>
          if folder_userId f \<noteq> userId then errorResponse ''Folder not found'' 404
          else jsonResponse (FolderBody (folderToResponse f)) 200)"

definition handleCreateFolder ::
  "kvstore \<Rightarrow> nat \<Rightarrow> string \<Rightarrow> string \<Rightarrow> folder_body option \<Rightarrow> response \<times> kvstore" where
  "handleCreateFolder s now uuid userId body =
     (case body of
        None \<Rightarrow> (errorResponse ''Invalid JSON'' 400, s)
      | Some b \<Rightarrow>
          if \<not> truthy_str (fb_name b) then (errorResponse ''Name is required'' 400, s)
          else
            let f = \<lparr>folder_id = uuid, folder_userId = userId, folder_name = the (fb_name b),
                     folder_createdAt = now, folder_updatedAt = now\<rparr>
            in (jsonResponse (FolderBody (folderToResponse f)) 200, saveFolder s now f))"

definition handleUpdateFolder ::
  "kvstore \<Rightarrow> nat \<Rightarrow> string \<Rightarrow> string \<Rightarrow> folder_body option \<Rightarrow> response \<times> kvstore" where
  "handleUpdateFolder s now userId fid body =
     (case getFolder s now fid of
        None \<Rightarrow> (errorResponse ''Folder not found'' 404, s)
      | Some f \<Rightarrow>
          if folder_userId f \<noteq> userId then (errorResponse ''Folder not found'' 404, s)
          else
            (case body of
              None \<Rightarrow> (errorResponse ''Invalid JSON'' 400, s)
            | Some b \<Rightarrow>
                let f1 = (if truthy_str (fb_name b) then f\<lparr>folder_name := the (fb_name b)\<rparr>
                          else f);
                    f2 = f1\<lparr>folder_updatedAt := now\<rparr>
                in (jsonResponse (FolderBody (folderToResponse f2)) 200, saveFolder s now f2)))"

definition handleDeleteFolder ::
  "kvstore \<Rightarrow> nat \<Rightarrow> string \<Rightarrow> string \<Rightarrow> response \<times> kvstore" where
  "handleDeleteFolder s now userId fid =
     (case getFolder s now fid of
        None \<Rightarrow> (errorResponse ''Folder not found'' 404, s)
      | Some f \<Rightarrow>
          if folder_userId f \<noteq> userId then (errorResponse ''Folder not found'' 404, s)
          else (\<lparr>status = 204, payload = NoBody\<rparr>, deleteFolder s now fid userId))"

section \<open>Account handlers (handlers/accounts)\<close>

record register_keys =
  rk_publicKey :: "string option"
  rk_encryptedPrivateKey :: "string option"

record register_body =
  rb_email :: "string option"
  rb_name :: "string option"
  rb_masterPasswordHash :: "string option"
  rb_masterPasswordHint :: "string option"
  rb_key :: "string option"
  rb_kdf :: "nat option"
  rb_kdfIterations :: "nat option"
  rb_kdfMemory :: "nat option"
  rb_kdfParallelism :: "nat option"
  rb_keys :: "register_keys option"

text \<open>
  \<^verbatim>\<open>generateUUID()\<close> is called twice by \<^verbatim>\<open>handleRegister\<close>; the two results are the
  parameters \<open>uuid1\<close> (the user id) and \<open>uuid2\<close> (the security stamp).
\<close>

definition handleRegister ::
  "kvstore \<Rightarrow> nat \<Rightarrow> string \<Rightarrow> string \<Rightarrow> register_body option \<Rightarrow> response \<times> kvstore" where
  "handleRegister s now uuid1 uuid2 body =
     (if isRegistered s now then (errorResponse ''Registration is closed'' 403, s)
      else
        case body of
          None \<Rightarrow> (errorResponse ''Invalid JSON'' 400, s)
        | Some b \<Rightarrow>
            let email = map_option toLowerCase (rb_email b);
                name = (if truthy_str (rb_name b) then rb_name b else email);
                masterPasswordHash = rb_masterPasswordHash b;
                key = rb_key b;
                privateKey = Option.bind (rb_keys b) rk_encryptedPrivateKey;
                publicKey = Option.bind (rb_keys b) rk_publicKey
            in if \<not> truthy_str email \<or> \<not> truthy_str masterPasswordHash \<or> \<not> truthy_str key
               then (errorResponse ''Email, masterPasswordHash, and key are required'' 400, s)
               else if \<not> truthy_str privateKey \<or> \<not> truthy_str publicKey
               then (errorResponse ''Private key and public key are required'' 400, s)
               else
                 let u = \<lparr>user_id = uuid1,
                          user_email = the email,
                          user_name = (if truthy_str name then the name else the email),
                          user_masterPasswordHash = the masterPasswordHash,
                          user_key = the key,
                          user_privateKey = privateKey,
                          user_publicKey = publicKey,
                          user_kdfType = (case rb_kdf b of Some k \<Rightarrow> k | None \<Rightarrow> 0),
                          user_kdfIterations =
                            (case rb_kdfIterations b of Some k \<Rightarrow> k | None \<Rightarrow> 600000),
                          user_kdfMemory = rb_kdfMemory b,
                          user_kdfParallelism = rb_kdfParallelism b,
                          user_securityStamp = uuid2,
                          user_createdAt = now,
                          user_updatedAt = now\<rparr>
                 in (jsonResponse SuccessBody 200, setRegistered (saveUser s u)))"

definition handleGetProfile :: "kvstore \<Rightarrow> nat \<Rightarrow> string \<Rightarrow> response" where
  "handleGetProfile s now userId =
     (case getUserById s now userId of
        None \<Rightarrow> errorResponse ''User not found'' 404
      | Some u \<Rightarrow>
          jsonResponse (ProfileBody
            \<lparr>pr_id = user_id u, pr_name = user_name u, pr_email = user_email u,
             pr_key = user_key u, pr_privateKey = user_privateKey u,
             pr_securityStamp =
               (if user_securityStamp u \<noteq> [] then user_securityStamp u else user_id u),
             pr_creationDate = user_createdAt u\<rparr>) 200)"

record profile_body =
  pb_name :: "string option"
  pb_masterPasswordHint :: "string option"

definition handleUpdateProfile ::
  "kvstore \<Rightarrow> nat \<Rightarrow> string \<Rightarrow> profile_body option \<Rightarrow> response \<times> kvstore" where
  "handleUpdateProfile s now userId body =
     (case getUserById s now userId of
        None \<Rightarrow> (errorResponse ''User not found'' 404, s)
      | Some u \<Rightarrow>
          (case body of
            None \<Rightarrow> (errorResponse ''Invalid JSON'' 400, s)
          | Some b \<Rightarrow>
              let u1 = (if truthy_str (pb_name b) then u\<lparr>user_name := the (pb_name b)\<rparr> else u);
                  u2 = u1\<lparr>user_updatedAt := now\<rparr>;
                  s' = saveUser s u2
              in (handleGetProfile s' now userId, s')))"

record keys_body =
  kb_key :: "string option"
  kb_encryptedPrivateKey :: "string option"
  kb_publicKey :: "string option"

definition handleSetKeys ::
  "kvstore \<Rightarrow> nat \<Rightarrow> string \<Rightarrow> keys_body option \<Rightarrow> response \<times> kvstore" where
  "handleSetKeys s now userId body =
     (case getUserById s now userId of
        None \<Rightarrow> (errorResponse ''User not found'' 404, s)
      | Some u \<Rightarrow>
          (case body of
            None \<Rightarrow> (errorResponse ''Invalid JSON'' 400, s)
          | Some b \<Rightarrow>
              let u1 = (if truthy_str (kb_key b) then u\<lparr>user_key := the (kb_key b)\<rparr> else u);
                  u2 = (if truthy_str (kb_encryptedPrivateKey b)
                        then u1\<lparr>user_privateKey := kb_encryptedPrivateKey b\<rparr> else u1);
                  u3 = (if truthy_str (kb_publicKey b)
                        then u2\<lparr>user_publicKey := kb_publicKey b\<rparr> else u2);
                  u4 = u3\<lparr>user_updatedAt := now\<rparr>;
                  s' = saveUser s u4
              in (handleGetProfile s' now userId, s')))"

definition handleGetRevisionDate :: "kvstore \<Rightarrow> nat \<Rightarrow> string \<Rightarrow> response" where
  "handleGetRevisionDate s now userId =
     jsonResponse (TimestampBody (getRevisionDate s now userId)) 200"


section \<open>Cipher handlers (handlers/ciphers)\<close>

fun getAttachmentsByCipher_loop ::
  "kvstore \<Rightarrow> nat \<Rightarrow> string list \<Rightarrow> attachment list \<Rightarrow> attachment list" where
  "getAttachmentsByCipher_loop s now [] attachments = attachments"
| "getAttachmentsByCipher_loop s now (aid # ids) attachments =
     (case getAttachment s now aid of
        Some a \<Rightarrow> getAttachmentsByCipher_loop s now ids (attachments @ [a])
      | None \<Rightarrow> getAttachmentsByCipher_loop s now ids attachments)"

definition getAttachmentsByCipher :: "kvstore \<Rightarrow> nat \<Rightarrow> string \<Rightarrow> attachment list" where
  "getAttachmentsByCipher s now cid =
     getAttachmentsByCipher_loop s now (getAttachmentIdsByCipher s now cid) []"

definition formatAttachments :: "attachment list \<Rightarrow> attachment list option" where
  "formatAttachments attachments = (if attachments = [] then None else Some attachments)"

definition cipherToResponse :: "cipher \<Rightarrow> attachment list \<Rightarrow> cipher_response" where
  "cipherToResponse c attachments =
     \<lparr>cr_id = cipher_id c, cr_folderId = cipher_folderId c, cr_type = cipher_type c,
      cr_name = cipher_name c, cr_notes = cipher_notes c, cr_favorite = cipher_favorite c,
      cr_login = cipher_login c, cr_card = cipher_card c, cr_identity = cipher_identity c,
      cr_secureNote = cipher_secureNote c, cr_fields = cipher_fields c,
      cr_passwordHistory = cipher_passwordHistory c, cr_reprompt = cipher_reprompt c,
      cr_creationDate = cipher_createdAt c, cr_revisionDate = cipher_updatedAt c,
      cr_deletedDate = cipher_deletedAt c, cr_attachments = formatAttachments attachments\<rparr>"

definition handleGetCipher :: "kvstore \<Rightarrow> nat \<Rightarrow> string \<Rightarrow> string \<Rightarrow> response" where
  "handleGetCipher s now userId cid =
     (case getCipher s now cid of
        None \<Rightarrow> errorResponse ''Cipher not found'' 404
      | Some c \<Rightarrow>
          if cipher_userId c \<noteq> userId then errorResponse ''Cipher not found'' 404
          else jsonResponse
                 (CipherBody (cipherToResponse c (getAttachmentsByCipher s now (cipher_id c))))
                 200)"

text \<open>
  The body of a create or update request is \<^verbatim>\<open>any\<close> in the source; the handlers read
  \<^verbatim>\<open>body.cipher || body\<close>.  \<open>Nested d\<close> is a body with a \<^verbatim>\<open>cipher\<close> object \<open>d\<close>,
  \<open>Flat d\<close> a body that carries the fields itself.  A create request is taken to carry a
  \<^verbatim>\<open>type\<close> and a \<^verbatim>\<open>name\<close>, as the \<^verbatim>\<open>Cipher\<close> interface requires of the record
  built from them.  An optional field is \<open>None\<close> when it is \<^verbatim>\<open>undefined\<close> or
  \<^verbatim>\<open>null\<close>; where the source tells the two apart the field has type \<open>'a js\<close>.
\<close>

datatype 'd cipher_body = Nested 'd | Flat 'd

fun cipherData :: "'d cipher_body \<Rightarrow> 'd" where
  "cipherData (Nested d) = d"
| "cipherData (Flat d) = d"

fun json_truthy :: "json \<Rightarrow> bool" where
  "json_truthy JNull = False"
| "json_truthy (JBool b) = b"
| "json_truthy (JNum n) = (n \<noteq> 0)"
| "json_truthy (JStr x) = (x \<noteq> [])"
| "json_truthy (JArr xs) = True"
| "json_truthy (JObj kvs) = True"

definition or_null :: "json option \<Rightarrow> json option" where
  "or_null x = (case x of None \<Rightarrow> None | Some j \<Rightarrow> if json_truthy j then Some j else None)"

record create_data =
  cd_type :: nat
  cd_folderId :: "string option"
  cd_name :: string
  cd_notes :: "string option"
  cd_favorite :: "bool option"
  cd_login :: "json option"
  cd_card :: "json option"
  cd_identity :: "json option"
  cd_secureNote :: "json option"
  cd_fields :: "json option"
  cd_passwordHistory :: "json option"
  cd_reprompt :: "nat option"

definition handleCreateCipher ::
  "kvstore \<Rightarrow> nat \<Rightarrow> string \<Rightarrow> string \<Rightarrow> create_data cipher_body option
     \<Rightarrow> response \<times> kvstore" where
  "handleCreateCipher s now uuid userId body =
     (case body of
        None \<Rightarrow> (errorResponse ''Invalid JSON'' 400, s)
      | Some b \<Rightarrow>
          let d = cipherData b;
              c = \<lparr>cipher_id = uuid, cipher_userId = userId, cipher_type = cd_type d,
                   cipher_folderId = (if truthy_str (cd_folderId d) then cd_folderId d else None),
                   cipher_name = cd_name d,
                   cipher_notes = (if truthy_str (cd_notes d) then cd_notes d else None),
                   cipher_favorite = Some (case cd_favorite d of Some f \<Rightarrow> f | None \<Rightarrow> False),
                   cipher_login = or_null (cd_login d), cipher_card = or_null (cd_card d),
                   cipher_identity = or_null (cd_identity d),
                   cipher_secureNote = or_null (cd_secureNote d),
                   cipher_fields = or_null (cd_fields d),
                   cipher_passwordHistory = or_null (cd_passwordHistory d),
                   cipher_reprompt = (case cd_reprompt d of Some r \<Rightarrow> r | None \<Rightarrow> 0),
                   cipher_createdAt = now, cipher_updatedAt = now, cipher_deletedAt = None\<rparr>;
              s1 = saveCipher s now c;
              s2 = snd (updateRevisionDate s1 now userId)
          in (jsonResponse (CipherBody (cipherToResponse c [])) 200, s2))"

record update_data =
  ud_type :: "nat option"
  ud_folderId :: "string js"
  ud_name :: "string option"
  ud_notes :: "string js"
  ud_favorite :: "bool option"
  ud_login :: "json js"
  ud_card :: "json js"
  ud_identity :: "json js"
  ud_secureNote :: "json js"
  ud_fields :: "json js"
  ud_passwordHistory :: "json js"
  ud_reprompt :: "nat option"

text \<open>\<^verbatim>\<open>x !== undefined ? x : old\<close> and \<^verbatim>\<open>x ?? old\<close>.\<close>

definition if_defined :: "'a js \<Rightarrow> 'a option \<Rightarrow> 'a option" where
  "if_defined x old = (case x of Undefined \<Rightarrow> old | Null \<Rightarrow> None | Val v \<Rightarrow> Some v)"

definition nullish :: "'a option \<Rightarrow> 'a \<Rightarrow> 'a" where
  "nullish x old = (case x of None \<Rightarrow> old | Some v \<Rightarrow> v)"

definition handleUpdateCipher ::
  "kvstore \<Rightarrow> nat \<Rightarrow> string \<Rightarrow> string \<Rightarrow> update_data cipher_body option
     \<Rightarrow> response \<times> kvstore" where
  "handleUpdateCipher s now userId cid body =
     (case getCipher s now cid of
        None \<Rightarrow> (errorResponse ''Cipher not found'' 404, s)
      | Some e \<Rightarrow>
          if cipher_userId e \<noteq> userId then (errorResponse ''Cipher not found'' 404, s)
          else
            (case body of
              None \<Rightarrow> (errorResponse ''Invalid JSON'' 400, s)
            | Some b \<Rightarrow>
                let d = cipherData b;
                    c = e\<lparr>cipher_type := nullish (ud_type d) (cipher_type e),
                          cipher_folderId := if_defined (ud_folderId d) (cipher_folderId e),
                          cipher_name := nullish (ud_name d) (cipher_name e),
                          cipher_notes := if_defined (ud_notes d) (cipher_notes e),
                          cipher_favorite :=
                            (case ud_favorite d of Some f \<Rightarrow> Some f | None \<Rightarrow> cipher_favorite e),
                          cipher_login := if_defined (ud_login d) (cipher_login e),
                          cipher_card := if_defined (ud_card d) (cipher_card e),
                          cipher_identity := if_defined (ud_identity d) (cipher_identity e),
                          cipher_secureNote := if_defined (ud_secureNote d) (cipher_secureNote e),
                          cipher_fields := if_defined (ud_fields d) (cipher_fields e),
                          cipher_passwordHistory :=
                            if_defined (ud_passwordHistory d) (cipher_passwordHistory e),
                          cipher_reprompt := nullish (ud_reprompt d) (cipher_reprompt e),
                          cipher_updatedAt := now\<rparr>;
                    s1 = saveCipher s now c;
                    s2 = snd (updateRevisionDate s1 now userId)
                in (jsonResponse (CipherBody (cipherToResponse c [])) 200, s2)))"

definition handleDeleteCipher ::
  "kvstore \<Rightarrow> nat \<Rightarrow> string \<Rightarrow> string \<Rightarrow> response \<times> kvstore" where
  "handleDeleteCipher s now userId cid =
     (case getCipher s now cid of
        None \<Rightarrow> (errorResponse ''Cipher not found'' 404, s)
      | Some e \<Rightarrow>
          if cipher_userId e \<noteq> userId then (errorResponse ''Cipher not found'' 404, s)
          else
            let c = e\<lparr>cipher_deletedAt := Some now, cipher_updatedAt := now\<rparr>;
                s1 = saveCipher s now c;
                s2 = snd (updateRevisionDate s1 now userId)
            in (jsonResponse (CipherBody (cipherToResponse c [])) 200, s2))"

text \<open>
  \<^verbatim>\<open>deleteAllAttachmentsForCipher\<close> belongs to handlers/attachments; it is the parameter
  \<open>delAtt\<close> here.
\<close>

definition handlePermanentDeleteCipher ::
  "(kvstore \<Rightarrow> nat \<Rightarrow> string \<Rightarrow> kvstore) \<Rightarrow> kvstore \<Rightarrow> nat \<Rightarrow> string \<Rightarrow> string
     \<Rightarrow> response \<times> kvstore" where
  "handlePermanentDeleteCipher delAtt s now userId cid =
     (case getCipher s now cid of
        None \<Rightarrow> (errorResponse ''Cipher not found'' 404, s)
      | Some e \<Rightarrow>
          if cipher_userId e \<noteq> userId then (errorResponse ''Cipher not found'' 404, s)
          else
            let s0 = delAtt s now cid;
                s1 = deleteCipher s0 now cid userId;
                s2 = snd (updateRevisionDate s1 now userId)
            in (\<lparr>status = 204, payload = NoBody\<rparr>, s2))"

definition handleRestoreCipher ::
  "kvstore \<Rightarrow> nat \<Rightarrow> string \<Rightarrow> string \<Rightarrow> response \<times> kvstore" where
  "handleRestoreCipher s now userId cid =
     (case getCipher s now cid of
        None \<Rightarrow> (errorResponse ''Cipher not found'' 404, s)
      | Some e \<Rightarrow>
          if cipher_userId e \<noteq> userId then (errorResponse ''Cipher not found'' 404, s)
          else
            let c = e\<lparr>cipher_deletedAt := None, cipher_updatedAt := now\<rparr>;
                s1 = saveCipher s now c;
                s2 = snd (updateRevisionDate s1 now userId)
            in (jsonResponse (CipherBody (cipherToResponse c [])) 200, s2))"

record partial_body =
  pu_folderId :: "string js"
  pu_favorite :: "bool js"

definition handlePartialUpdateCipher ::
  "kvstore \<Rightarrow> nat \<Rightarrow> string \<Rightarrow> string \<Rightarrow> partial_body option \<Rightarrow> response \<times> kvstore" where
  "handlePartialUpdateCipher s now userId cid body =
     (case getCipher s now cid of
        None \<Rightarrow> (errorResponse ''Cipher not found'' 404, s)
      | Some e \<Rightarrow>
          if cipher_userId e \<noteq> userId then (errorResponse ''Cipher not found'' 404, s)
          else
            (case body of
              None \<Rightarrow> (errorResponse ''Invalid JSON'' 400, s)
            | Some b \<Rightarrow>
                let c = e\<lparr>cipher_folderId := if_defined (pu_folderId b) (cipher_folderId e),
                          cipher_favorite := if_defined (pu_favorite b) (cipher_favorite e),
                          cipher_updatedAt := now\<rparr>;
                    s1 = saveCipher s now c;
                    s2 = snd (updateRevisionDate s1 now userId)
                in (jsonResponse (CipherBody (cipherToResponse c [])) 200, s2)))"

record move_body =
  mb_ids :: "string list option"
  mb_folderId :: "string option"

definition handleBulkMoveCiphers ::
  "kvstore \<Rightarrow> nat \<Rightarrow> string \<Rightarrow> move_body option \<Rightarrow> response \<times> kvstore" where
  "handleBulkMoveCiphers s now userId body =
     (case body of
        None \<Rightarrow> (errorResponse ''Invalid JSON'' 400, s)
      | Some b \<Rightarrow>
          (case mb_ids b of
            None \<Rightarrow> (errorResponse ''ids array is required'' 400, s)
          | Some ids \<Rightarrow>
              (\<lparr>status = 204, payload = NoBody\<rparr>,
               bulkMoveCiphers s now ids
                 (if truthy_str (mb_folderId b) then mb_folderId b else None) userId)))"

section \<open>The router's rate-limit gate and the entry point (router, index)\<close>

text \<open>
  The part of \<^verbatim>\<open>handleRequest\<close> between the authentication and the routing of an
  authenticated request: \<open>Some\<close> response when the request is turned away, \<open>None\<close> when
  it goes on to its handler.  \<^verbatim>\<open>checkApiRateLimit\<close> and \<^verbatim>\<open>incrementApiCount\<close> each read
  the clock: \<open>now\<close> is the value the check reads, \<open>now'\<close> the value the increment reads.
\<close>

definition handleRequest_rateLimit ::
  "kvstore \<Rightarrow> nat \<Rightarrow> nat \<Rightarrow> string \<Rightarrow> string \<Rightarrow> response option \<times> kvstore" where
  "handleRequest_rateLimit s now now' userId clientId =
     (let rateLimitCheck = checkApiRateLimit s now (userId @ '':'' @ clientId)
      in if \<not> api_allowed rateLimitCheck
         then (Some \<lparr>status = 429,
                      payload = RateLimitBody (the (api_retryAfterSeconds rateLimitCheck))\<rparr>, s)
         else (None, incrementApiCount s now' (userId @ '':'' @ clientId)))"

record env =
  JWT_SECRET :: "string option"

text \<open>
  \<^verbatim>\<open>fetch\<close> of index.ts.  The router \<^verbatim>\<open>handleRequest\<close> is the parameter \<open>h\<close>; the
  third component of the result lists the \<^verbatim>\<open>console.warn\<close> messages.
\<close>

definition fetch ::
  "('req \<Rightarrow> env \<Rightarrow> kvstore \<Rightarrow> response \<times> kvstore) \<Rightarrow> 'req \<Rightarrow> env \<Rightarrow> kvstore
     \<Rightarrow> response \<times> kvstore \<times> string list" where
  "fetch h request e s =
     (if \<not> truthy_str (JWT_SECRET e)
      then (\<lparr>status = 500,
              payload = TextBody ''Server configuration error: JWT_SECRET is not set''\<rparr>, s, [])
      else
        let warnings =
              (if length (the (JWT_SECRET e)) < 32
               then [''[SECURITY WARNING] JWT_SECRET should be at least 32 characters for adequate security'']
               else [])
        in case h request e s of (r, s') \<Rightarrow> (r, s', warnings))"


section \<open>Notions used to state the properties\<close>

text \<open>
  A run of failed logins for one email, at the given clock values, and the spacing of
  clock values: each comes less than \<open>d\<close> milliseconds after the one before it.
\<close>

fun recordFailedLogins :: "kvstore \<Rightarrow> nat list \<Rightarrow> string \<Rightarrow> kvstore" where
  "recordFailedLogins s [] email = s"
| "recordFailedLogins s (t # ts) email =
     recordFailedLogins (snd (recordFailedLogin s t email)) ts email"

fun spaced_within :: "nat \<Rightarrow> nat list \<Rightarrow> bool" where
  "spaced_within d [] = True"
| "spaced_within d [t] = True"
| "spaced_within d (t # t' # ts) = (t' < t + d \<and> spaced_within d (t' # ts))"

text \<open>The stored record of the email carries a lock that has run out.\<close>

definition lock_expired :: "kvstore \<Rightarrow> nat \<Rightarrow> string \<Rightarrow> bool" where
  "lock_expired s now email =
     (case get_attempt s now (LOGIN_ATTEMPTS_key email) of
        None \<Rightarrow> False
      | Some r \<Rightarrow> lock_set r \<and> the (lockedUntil r) \<le> now)"

text \<open>
  Two states of the login record: at most \<open>n\<close> failures counted and no lock, whenever
  the record is read; exactly \<open>n\<close> failures counted, the last one recorded at \<open>t\<close>.
\<close>

definition open_upto :: "kvstore \<Rightarrow> string \<Rightarrow> nat \<Rightarrow> bool" where
  "open_upto s key n =
     (\<forall>now r. get_attempt s now key = Some r \<longrightarrow> attempts r \<le> n \<and> lockedUntil r = None)"

definition counted :: "kvstore \<Rightarrow> string \<Rightarrow> nat \<Rightarrow> nat \<Rightarrow> bool" where
  "counted s key n t =
     (kv s key = Some (VAttempt \<lparr>attempts = n, lockedUntil = None\<rparr>, Some (t + 900000)))"

text \<open>
  Membership of a clock value in the window that starts at second \<open>w\<close>, and the value
  of the window's counter of an identity as every read in that window finds it.
\<close>

definition in_window :: "nat \<Rightarrow> nat \<Rightarrow> bool" where
  "in_window w now_ms = (windowStart (now_ms div 1000) = w)"

definition counter_is :: "kvstore \<Rightarrow> string \<Rightarrow> nat \<Rightarrow> nat \<Rightarrow> bool" where
  "counter_is s identifier w n =
     (\<forall>t. in_window w t \<longrightarrow> get_count s t (API_RATE_key identifier w) = n)"

text \<open>
  Every stored cipher lies under the key of its own id.  \<^verbatim>\<open>saveCipher\<close> is the only
  writer of cipher keys and writes a cipher under its own id, so the stores that the
  server produces have this property.
\<close>

definition cipher_keys_ok :: "kvstore \<Rightarrow> bool" where
  "cipher_keys_ok s =
     (\<forall>cid c e. kv s (CIPHER_key cid) = Some (VCipher c, e) \<longrightarrow> cipher_id c = cid)"

text \<open>The write calls issued between two states of the store, and the two kinds of write
  that \<^verbatim>\<open>saveCipher\<close> issues.\<close>

definition new_writes :: "kvstore \<Rightarrow> kvstore \<Rightarrow> kvop list" where
  "new_writes s s' = drop (length (writes s)) (writes s')"

definition cipher_write :: "kvop \<Rightarrow> bool" where
  "cipher_write w = ((\<exists>cid. w = Put (CIPHER_key cid)) \<or> (\<exists>u. w = Put (CIPHERS_INDEX_key u)))"

text \<open>A cipher with the given id, owner and folder, for the examples.\<close>

definition example_cipher :: "string \<Rightarrow> string \<Rightarrow> string option \<Rightarrow> cipher" where
  "example_cipher cid uid fid =
     \<lparr>cipher_id = cid, cipher_userId = uid, cipher_type = 1, cipher_folderId = fid,
      cipher_name = ''2.name'', cipher_notes = None, cipher_favorite = Some False,
      cipher_login = None, cipher_card = None, cipher_identity = None,
      cipher_secureNote = None, cipher_fields = None, cipher_passwordHistory = None,
      cipher_reprompt = 0, cipher_createdAt = 0, cipher_updatedAt = 0,
      cipher_deletedAt = None\<rparr>"

text \<open>A folder and a user, for the examples.\<close>

definition example_folder :: "string \<Rightarrow> string \<Rightarrow> folder" where
  "example_folder fid uid =
     \<lparr>folder_id = fid, folder_userId = uid, folder_name = ''2.folder'',
      folder_createdAt = 0, folder_updatedAt = 0\<rparr>"

definition example_user :: "string \<Rightarrow> string \<Rightarrow> user" where
  "example_user uid mail =
     \<lparr>user_id = uid, user_email = mail, user_name = ''Old'',
      user_masterPasswordHash = ''hash'', user_key = ''2.key'',
      user_privateKey = Some ''2.private'', user_publicKey = Some ''public'',
      user_kdfType = 0, user_kdfIterations = 600000, user_kdfMemory = None,
      user_kdfParallelism = None, user_securityStamp = ''stamp'',
      user_createdAt = 0, user_updatedAt = 0\<rparr>"

text \<open>
  The methods of \<^verbatim>\<open>StorageService\<close> and \<^verbatim>\<open>RateLimitService\<close> that write to the
  store, as calls with their arguments, and the store after a call made at a clock value.
  The handlers reach the store through these methods only.  The registered flag as
  \<^verbatim>\<open>setRegistered\<close> leaves it: the text \<^verbatim>\<open>true\<close>, stored without an expiry.
\<close>

datatype call =
    SetRegistered
  | SaveUser user
  | SaveCipher cipher
  | DeleteCipher string string
  | SaveFolder folder
  | DeleteFolder string string
  | SaveRefreshToken string string
  | DeleteRefreshToken string
  | UpdateRevisionDate string
  | BulkMoveCiphers "string list" "string option" string
  | SaveAttachment attachment
  | DeleteAttachment string
  | AddAttachmentToCipher string string
  | RemoveAttachmentFromCipher string string
  | DeleteAllAttachmentsByCipher string
  | UpdateCipherRevisionDate string
  | CheckLoginAttempt string
  | RecordFailedLogin string
  | ClearLoginAttempts string
  | IncrementApiCount string

fun exec :: "kvstore \<Rightarrow> nat \<times> call \<Rightarrow> kvstore" where
  "exec s (now, SetRegistered) = setRegistered s"
| "exec s (now, SaveUser u) = saveUser s u"
| "exec s (now, SaveCipher c) = saveCipher s now c"
| "exec s (now, DeleteCipher cid uid) = deleteCipher s now cid uid"
| "exec s (now, SaveFolder f) = saveFolder s now f"
| "exec s (now, DeleteFolder fid uid) = deleteFolder s now fid uid"
| "exec s (now, SaveRefreshToken token uid) = saveRefreshToken s now token uid"
| "exec s (now, DeleteRefreshToken token) = deleteRefreshToken s token"
| "exec s (now, UpdateRevisionDate uid) = snd (updateRevisionDate s now uid)"
| "exec s (now, BulkMoveCiphers ids folderId uid) = bulkMoveCiphers s now ids folderId uid"
| "exec s (now, SaveAttachment a) = saveAttachment s a"
| "exec s (now, DeleteAttachment aid) = deleteAttachment s aid"
| "exec s (now, AddAttachmentToCipher cid aid) = addAttachmentToCipher s now cid aid"
| "exec s (now, RemoveAttachmentFromCipher cid aid) = removeAttachmentFromCipher s now cid aid"
| "exec s (now, DeleteAllAttachmentsByCipher cid) = deleteAllAttachmentsByCipher s now cid"
| "exec s (now, UpdateCipherRevisionDate cid) = updateCipherRevisionDate s now cid"
| "exec s (now, CheckLoginAttempt email) = snd (checkLoginAttempt s now email)"
| "exec s (now, RecordFailedLogin email) = snd (recordFailedLogin s now email)"
| "exec s (now, ClearLoginAttempts email) = clearLoginAttempts s email"
| "exec s (now, IncrementApiCount identifier) = incrementApiCount s now identifier"

definition registered_for_good :: "kvstore \<Rightarrow> bool" where
  "registered_for_good s = (kv s CONFIG_REGISTERED = Some (VText ''true'', None))"


text \<open>
  What happens to the store, one event after the other: an authenticated request of a
  user from a client address passing the rate-limit gate, with the clock value its check
  reads and the clock value its increment reads, or a writing call of one of the services
  made by a handler.  \<open>is_request\<close> picks the requests of an identity (the text
  \<^verbatim>\<open>userId:clientId\<close>) whose check reads a clock value of the window that starts at
  second \<open>w\<close>; \<open>served\<close> lists, in order, whether each of them was let through.
\<close>

datatype event = Request nat nat string string | Call nat call

fun step :: "kvstore \<Rightarrow> event \<Rightarrow> kvstore" where
  "step s (Request t t' userId clientId) = snd (handleRequest_rateLimit s t t' userId clientId)"
| "step s (Call t c) = exec s (t, c)"

fun is_request :: "string \<Rightarrow> nat \<Rightarrow> event \<Rightarrow> bool" where
  "is_request identifier w (Request t t' userId clientId) =
     (userId @ '':'' @ clientId = identifier \<and> in_window w t)"
| "is_request identifier w (Call t c) = False"

fun served :: "kvstore \<Rightarrow> event list \<Rightarrow> string \<Rightarrow> nat \<Rightarrow> bool list" where
  "served s [] identifier w = []"
| "served s (e # es) identifier w =
     (case e of
        Request t t' userId clientId \<Rightarrow>
          if is_request identifier w e
          then [fst (handleRequest_rateLimit s t t' userId clientId) = None]
          else []
      | Call t c \<Rightarrow> [])
     @ served (step s e) es identifier w"

text \<open>
  An event leaves the window of the identity alone: a request of the identity has its
  check and its increment in the window or both outside it (it does not straddle a border
  of the window), and the event is not an increment of the identity's counter in the
  window made apart from the gate (the router is the only caller of
  \<^verbatim>\<open>incrementApiCount\<close>).
\<close>

fun within_window :: "string \<Rightarrow> nat \<Rightarrow> event \<Rightarrow> bool" where
  "within_window identifier w (Request t t' userId clientId) =
     (userId @ '':'' @ clientId \<noteq> identifier \<or> in_window w t = in_window w t')"
| "within_window identifier w (Call t c) =
     (case c of IncrementApiCount j \<Rightarrow> j \<noteq> identifier \<or> \<not> in_window w t | _ \<Rightarrow> True)"

text \<open>
  The stored index under a key, the stored cipher and the stored folder under an id, as
  \<^verbatim>\<open>kv.get\<close> and \<^verbatim>\<open>JSON.parse\<close> give them.
\<close>

abbreviation stored_ids :: "kvstore \<Rightarrow> nat \<Rightarrow> string \<Rightarrow> string list" where
  "stored_ids s now key \<equiv> (case kv_get s now key of Some (VIds ids) \<Rightarrow> ids | _ \<Rightarrow> [])"

abbreviation stored_cipher :: "kvstore \<Rightarrow> nat \<Rightarrow> string \<Rightarrow> cipher option" where
  "stored_cipher s now cid \<equiv>
     (case kv_get s now (CIPHER_key cid) of Some (VCipher c) \<Rightarrow> Some c | _ \<Rightarrow> None)"

abbreviation stored_folder :: "kvstore \<Rightarrow> nat \<Rightarrow> string \<Rightarrow> folder option" where
  "stored_folder s now fid \<equiv>
     (case kv_get s now (FOLDER_key fid) of Some (VFolder f) \<Rightarrow> Some f | _ \<Rightarrow> None)"

text \<open>
  Every stored folder lies under the key of its own id: \<^verbatim>\<open>saveFolder\<close> is the only
  writer of folder keys and writes a folder under its own id.
\<close>

definition folder_keys_ok :: "kvstore \<Rightarrow> bool" where
  "folder_keys_ok s =
     (\<forall>fid f e. kv s (FOLDER_key fid) = Some (VFolder f, e) \<longrightarrow> folder_id f = fid)"

text \<open>
  A store for the examples: two ciphers and two folders of user \<open>u1\<close> are saved, then
  the records of the second cipher and of the second folder are deleted while the indexes
  still list them.
\<close>

definition example_store :: kvstore where
  "example_store =
     kv_delete
       (kv_delete
          (saveFolder
             (saveFolder
                (saveCipher (saveCipher empty_store 0 (example_cipher ''c1'' ''u1'' None)) 0
                   (example_cipher ''c2'' ''u1'' None))
                0 (example_folder ''f1'' ''u1''))
             0 (example_folder ''f2'' ''u1''))
          (CIPHER_key ''c2''))
       (FOLDER_key ''f2'')"

section \<open>Facts about the store\<close>

lemmas key_defs = CONFIG_REGISTERED_def USER_key_def USERID_key_def CIPHER_key_def FOLDER_key_def
  ATTACHMENT_key_def CIPHERS_INDEX_key_def FOLDERS_INDEX_key_def ATTACHMENTS_INDEX_key_def
  REFRESH_TOKEN_key_def REVISION_DATE_key_def LOGIN_ATTEMPTS_key_def API_RATE_key_def

lemma kv_get_put [simp]:
  "kv_get (kv_put s k v) now k' = (if k' = k then Some v else kv_get s now k')"
  by (simp add: kv_get_def kv_put_def)

lemma kv_get_put_ttl [simp]:
  "kv_get (kv_put_ttl s t k v ttl) now k' =
     (if k' = k then (if now < t + ttl * 1000 then Some v else None) else kv_get s now k')"
  by (simp add: kv_get_def kv_put_ttl_def)

lemma kv_get_delete [simp]:
  "kv_get (kv_delete s k) now k' = (if k' = k then None else kv_get s now k')"
  by (simp add: kv_get_def kv_delete_def)

lemma kv_get_absent: "kv s k = None \<Longrightarrow> kv_get s now k = None"
  by (simp add: kv_get_def)

lemma kv_get_cong: "kv s' k = kv s k \<Longrightarrow> kv_get s' t k = kv_get s t k"
  by (simp add: kv_get_def)

lemma kv_put_simps [simp]:
  "kv (kv_put s k v) = (kv s)(k \<mapsto> (v, None))"
  "writes (kv_put s k v) = writes s @ [Put k]"
  by (simp_all add: kv_put_def)

lemma kv_delete_simps [simp]:
  "kv (kv_delete s k) = (kv s)(k := None)"
  "writes (kv_delete s k) = writes s @ [Delete k]"
  by (simp_all add: kv_delete_def)

lemma kv_put_ttl_simps [simp]:
  "kv (kv_put_ttl s t k v ttl) = (kv s)(k \<mapsto> (v, Some (t + ttl * 1000)))"
  "writes (kv_put_ttl s t k v ttl) = writes s @ [Put k]"
  by (simp_all add: kv_put_ttl_def)

lemma empty_store_absent: "kv empty_store k = None"
  by (simp add: empty_store_def)

lemma example_cipher_simps [simp]:
  "cipher_id (example_cipher cid uid fid) = cid"
  "cipher_userId (example_cipher cid uid fid) = uid"
  "cipher_folderId (example_cipher cid uid fid) = fid"
  by (simp_all add: example_cipher_def)

section \<open>Login lockout\<close>

lemma checkLoginAttempt_store:
  "snd (checkLoginAttempt s now email) =
     (if lock_expired s now email then kv_delete s (LOGIN_ATTEMPTS_key email) else s)"
  by (auto simp: checkLoginAttempt_def lock_expired_def Let_def split: option.splits)

lemma get_attempt_put_ttl [simp]:
  "get_attempt (kv_put_ttl s t k (VAttempt r) ttl) now k =
     (if now < t + ttl * 1000 then Some r else None)"
  by (simp add: get_attempt_def)

lemma open_upto_step:
  assumes "open_upto s (LOGIN_ATTEMPTS_key email) n" "n < 4"
  shows "open_upto (snd (recordFailedLogin s t email)) (LOGIN_ATTEMPTS_key email) (Suc n)"
proof (cases "get_attempt s t (LOGIN_ATTEMPTS_key email)")
  case None
  then show ?thesis
    by (simp add: open_upto_def recordFailedLogin_def Let_def LOGIN_MAX_ATTEMPTS_def
        LOGIN_LOCKOUT_MINUTES_def)
next
  case (Some r0)
  with assms have "attempts r0 \<le> n" "lockedUntil r0 = None"
    by (auto simp: open_upto_def)
  with Some assms(2) show ?thesis
    by (simp add: open_upto_def recordFailedLogin_def Let_def LOGIN_MAX_ATTEMPTS_def
        LOGIN_LOCKOUT_MINUTES_def)
qed

lemma open_upto_run:
  "open_upto s (LOGIN_ATTEMPTS_key email) n \<Longrightarrow> n + length ts < 5 \<Longrightarrow>
   open_upto (recordFailedLogins s ts email) (LOGIN_ATTEMPTS_key email) (n + length ts)"
proof (induction ts arbitrary: s n)
  case Nil
  then show ?case by simp
next
  case (Cons t ts)
  have "open_upto (snd (recordFailedLogin s t email)) (LOGIN_ATTEMPTS_key email) (Suc n)"
    using Cons.prems by (intro open_upto_step) auto
  from Cons.IH [OF this] Cons.prems show ?case by simp
qed

lemma open_upto_allowed:
  "open_upto s (LOGIN_ATTEMPTS_key email) n \<Longrightarrow>
   allowed (fst (checkLoginAttempt s now email)) \<and> snd (checkLoginAttempt s now email) = s"
  by (auto simp: open_upto_def checkLoginAttempt_def Let_def lock_set_def split: option.splits)

lemma open_upto_absent: "kv s key = None \<Longrightarrow> open_upto s key 0"
  by (simp add: open_upto_def get_attempt_def kv_get_absent)

lemma counted_step:
  assumes "counted s (LOGIN_ATTEMPTS_key email) n t" "t' < t + 900000" "Suc n < 5"
  shows "counted (snd (recordFailedLogin s t' email)) (LOGIN_ATTEMPTS_key email) (Suc n) t'"
  using assms
  by (simp add: counted_def recordFailedLogin_def Let_def LOGIN_MAX_ATTEMPTS_def
       LOGIN_LOCKOUT_MINUTES_def get_attempt_def kv_get_def kv_put_ttl_def)

lemma counted_first:
  assumes "kv s (LOGIN_ATTEMPTS_key email) = None"
  shows "counted (snd (recordFailedLogin s t email)) (LOGIN_ATTEMPTS_key email) 1 t"
  using assms
  by (simp add: counted_def recordFailedLogin_def Let_def LOGIN_MAX_ATTEMPTS_def
       LOGIN_LOCKOUT_MINUTES_def get_attempt_def kv_get_def kv_put_ttl_def)

lemma counted_run:
  "counted s (LOGIN_ATTEMPTS_key email) n t \<Longrightarrow> spaced_within 900000 (t # ts) \<Longrightarrow>
   n + length ts < 5 \<Longrightarrow>
   counted (recordFailedLogins s ts email) (LOGIN_ATTEMPTS_key email) (n + length ts) (last (t # ts))"
proof (induction ts arbitrary: s n t)
  case Nil
  then show ?case by simp
next
  case (Cons t' ts)
  have "counted (snd (recordFailedLogin s t' email)) (LOGIN_ATTEMPTS_key email) (Suc n) t'"
    using Cons.prems by (intro counted_step) auto
  from Cons.IH [OF this] Cons.prems show ?case by simp
qed

lemma spaced_within_snoc:
  "spaced_within d (xs @ [y]) = (spaced_within d xs \<and> (xs \<noteq> [] \<longrightarrow> y < last xs + d))"
  by (induction d xs rule: spaced_within.induct) auto

lemma locked_check:
  assumes "kv s5 (LOGIN_ATTEMPTS_key email) =
             Some (VAttempt \<lparr>attempts = n, lockedUntil = Some (t5 + 900000)\<rparr>, Some (t5 + 960000))"
  shows "now < t5 + 900000 \<Longrightarrow>
           \<not> allowed (fst (checkLoginAttempt s5 now email)) \<and>
           (\<exists>k. retryAfterSeconds (fst (checkLoginAttempt s5 now email)) = Some k \<and> 0 < k) \<and>
           snd (checkLoginAttempt s5 now email) = s5"
    and "t5 + 900000 \<le> now \<Longrightarrow> allowed (fst (checkLoginAttempt s5 now email))"
  using assms
  by (auto simp: checkLoginAttempt_def get_attempt_def kv_get_def lock_set_def ceil_seconds_def
      Let_def)

lemma fifth_failure:
  assumes "counted s4 (LOGIN_ATTEMPTS_key email) 4 t4" "t5 < t4 + 900000"
  shows "fst (recordFailedLogin s4 t5 email) = \<lparr>locked = True, fl_retryAfterSeconds = Some 900\<rparr>"
    and "kv (snd (recordFailedLogin s4 t5 email)) (LOGIN_ATTEMPTS_key email) =
           Some (VAttempt \<lparr>attempts = 5, lockedUntil = Some (t5 + 900000)\<rparr>, Some (t5 + 960000))"
  using assms
  by (simp_all add: counted_def recordFailedLogin_def Let_def LOGIN_MAX_ATTEMPTS_def
       LOGIN_LOCKOUT_MINUTES_def get_attempt_def kv_get_def kv_put_ttl_def)

lemma four_failures:
  assumes "kv s (LOGIN_ATTEMPTS_key email) = None" "length ts = 4" "spaced_within 900000 ts"
  shows "counted (recordFailedLogins s ts email) (LOGIN_ATTEMPTS_key email) 4 (last ts)"
proof -
  from assms(2) obtain t1 ts' where ts: "ts = t1 # ts'" "length ts' = 3"
    by (cases ts) auto
  have "counted (snd (recordFailedLogin s t1 email)) (LOGIN_ATTEMPTS_key email) 1 t1"
    using assms(1) by (rule counted_first)
  from counted_run [OF this, of ts'] assms(3) ts show ?thesis by simp
qed

lemma late_failure:
  assumes "counted s4 (LOGIN_ATTEMPTS_key email) n t4" "t4 + 900000 \<le> t5"
  shows "fst (recordFailedLogin s4 t5 email) = \<lparr>locked = False, fl_retryAfterSeconds = None\<rparr>"
  using assms
  by (simp add: counted_def recordFailedLogin_def Let_def LOGIN_MAX_ATTEMPTS_def
       LOGIN_LOCKOUT_MINUTES_def get_attempt_def kv_get_def kv_put_ttl_def)

lemma recordFailedLogins_snoc:
  "recordFailedLogins s (ts @ [t]) email =
     snd (recordFailedLogin (recordFailedLogins s ts email) t email)"
  by (induction ts arbitrary: s) auto

text \<open>
  Claim C2, as amended.  Start from a store without an attempt record for the email.
  After fewer than five \<^verbatim>\<open>recordFailedLogin\<close> calls, at any clock values,
  \<^verbatim>\<open>checkLoginAttempt\<close> answers allowed.  If four failures and a fifth are recorded each
  less than 900 seconds after the one before, so that the stored count has not expired,
  the fifth call reports locked with \<open>retryAfterSeconds = 900\<close> and stores
  \<open>lockedUntil = now + 15 minutes\<close>; from then on \<^verbatim>\<open>checkLoginAttempt\<close> answers
  not allowed with a positive \<open>retryAfterSeconds\<close>, leaving the store as it is, at every
  clock value before \<open>lockedUntil\<close>, and answers allowed at every clock value from
  \<open>lockedUntil\<close> on.
\<close>

theorem login_lockout:
  assumes "kv s (LOGIN_ATTEMPTS_key email) = None"
  shows
    "(length ts < 5 \<longrightarrow>
        allowed (fst (checkLoginAttempt (recordFailedLogins s ts email) now email))) \<and>
     (length ts = 4 \<and> spaced_within 900000 (ts @ [t5]) \<longrightarrow>
        (let s4 = recordFailedLogins s ts email;
             r = fst (recordFailedLogin s4 t5 email);
             s5 = snd (recordFailedLogin s4 t5 email)
         in locked r \<and> fl_retryAfterSeconds r = Some 900 \<and>
            get_attempt s5 t5 (LOGIN_ATTEMPTS_key email) =
              Some \<lparr>attempts = 5, lockedUntil = Some (t5 + 15 * 60 * 1000)\<rparr> \<and>
            (now < t5 + 15 * 60 * 1000 \<longrightarrow>
               \<not> allowed (fst (checkLoginAttempt s5 now email)) \<and>
               (\<exists>k. retryAfterSeconds (fst (checkLoginAttempt s5 now email)) = Some k \<and> 0 < k) \<and>
               snd (checkLoginAttempt s5 now email) = s5) \<and>
            (t5 + 15 * 60 * 1000 \<le> now \<longrightarrow>
               allowed (fst (checkLoginAttempt s5 now email)))))"
proof (intro conjI impI)
  assume "length ts < 5"
  with open_upto_run [OF open_upto_absent [OF assms], where ts = ts]
  have "open_upto (recordFailedLogins s ts email) (LOGIN_ATTEMPTS_key email) (length ts)"
    by simp
  then show "allowed (fst (checkLoginAttempt (recordFailedLogins s ts email) now email))"
    by (simp add: open_upto_allowed)
next
  assume a: "length ts = 4 \<and> spaced_within 900000 (ts @ [t5])"
  then have sp: "spaced_within 900000 ts" and t5: "t5 < last ts + 900000"
    by (auto simp: spaced_within_snoc)
  have c4: "counted (recordFailedLogins s ts email) (LOGIN_ATTEMPTS_key email) 4 (last ts)"
    using assms a sp by (intro four_failures) auto
  note f = fifth_failure [OF c4 t5]
  note l = locked_check [OF f(2)]
  show "let s4 = recordFailedLogins s ts email;
            r = fst (recordFailedLogin s4 t5 email);
            s5 = snd (recordFailedLogin s4 t5 email)
        in locked r \<and> fl_retryAfterSeconds r = Some 900 \<and>
           get_attempt s5 t5 (LOGIN_ATTEMPTS_key email) =
             Some \<lparr>attempts = 5, lockedUntil = Some (t5 + 15 * 60 * 1000)\<rparr> \<and>
           (now < t5 + 15 * 60 * 1000 \<longrightarrow>
              \<not> allowed (fst (checkLoginAttempt s5 now email)) \<and>
              (\<exists>k. retryAfterSeconds (fst (checkLoginAttempt s5 now email)) = Some k \<and> 0 < k) \<and>
              snd (checkLoginAttempt s5 now email) = s5) \<and>
           (t5 + 15 * 60 * 1000 \<le> now \<longrightarrow>
              allowed (fst (checkLoginAttempt s5 now email)))"
    unfolding Let_def using f l by (simp add: get_attempt_def kv_get_def)
qed

text \<open>
  The amended claim at work: failures at 0, 1, 2, 3 and 4 seconds lock the account, a
  check at 5 seconds is turned away, a check at 904 seconds is allowed, and a check after
  the first four failures is allowed.
\<close>

theorem login_lockout_witness:
  "kv empty_store (LOGIN_ATTEMPTS_key ''a@example.com'') = None \<and>
   length [0, 1000, 2000, 3000 :: nat] = 4 \<and> spaced_within 900000 ([0, 1000, 2000, 3000] @ [4000]) \<and>
   locked (fst (recordFailedLogin
     (recordFailedLogins empty_store [0, 1000, 2000, 3000] ''a@example.com'') 4000 ''a@example.com'')) \<and>
   \<not> allowed (fst (checkLoginAttempt (snd (recordFailedLogin
     (recordFailedLogins empty_store [0, 1000, 2000, 3000] ''a@example.com'') 4000 ''a@example.com''))
       5000 ''a@example.com'')) \<and>
   allowed (fst (checkLoginAttempt (snd (recordFailedLogin
     (recordFailedLogins empty_store [0, 1000, 2000, 3000] ''a@example.com'') 4000 ''a@example.com''))
       904000 ''a@example.com'')) \<and>
   allowed (fst (checkLoginAttempt
     (recordFailedLogins empty_store [0, 1000, 2000, 3000] ''a@example.com'') 5000 ''a@example.com''))"
proof -
  define ts :: "nat list" where "ts = [0, 1000, 2000, 3000]"
  have h: "kv empty_store (LOGIN_ATTEMPTS_key ''a@example.com'') = None"
    by (simp add: empty_store_def)
  have len: "length ts = 4" and sp: "spaced_within 900000 (ts @ [4000])"
    by (simp_all add: ts_def)
  have len': "length ts < 5" using len by simp
  note A = login_lockout [OF h, where ts = ts and now = 5000 and ?t5.0 = 4000]
  note B = login_lockout [OF h, where ts = ts and now = 904000 and ?t5.0 = 4000]
  have a1: "allowed (fst (checkLoginAttempt (recordFailedLogins empty_store ts ''a@example.com'')
              5000 ''a@example.com''))"
    using A len' by blast
  have a2: "locked (fst (recordFailedLogin (recordFailedLogins empty_store ts ''a@example.com'')
              4000 ''a@example.com''))"
    using A len sp unfolding Let_def by blast
  have a3: "\<not> allowed (fst (checkLoginAttempt (snd (recordFailedLogin
              (recordFailedLogins empty_store ts ''a@example.com'') 4000 ''a@example.com''))
              5000 ''a@example.com''))"
  proof -
    have "(5000::nat) < 4000 + 15 * 60 * 1000" by simp
    with A len sp show ?thesis unfolding Let_def by blast
  qed
  have a4: "allowed (fst (checkLoginAttempt (snd (recordFailedLogin
              (recordFailedLogins empty_store ts ''a@example.com'') 4000 ''a@example.com''))
              904000 ''a@example.com''))"
  proof -
    have "(4000::nat) + 15 * 60 * 1000 \<le> 904000" by simp
    with B len sp show ?thesis unfolding Let_def by blast
  qed
  from h len sp a1 a2 a3 a4 show ?thesis unfolding ts_def by blast
qed

text \<open>
  Claim C2 as stated fails: four failures at time 0 and a fifth one 1000 seconds later,
  when the stored count (kept for 900 seconds) has expired, do not lock the account.
\<close>

theorem fifth_failure_after_expiry_counterexample:
  "\<not> locked (fst (recordFailedLogin
      (recordFailedLogins empty_store [0, 0, 0, 0] ''a@example.com'') 1000000 ''a@example.com''))"
proof -
  have "counted (recordFailedLogins empty_store [0, 0, 0, 0] ''a@example.com'')
          (LOGIN_ATTEMPTS_key ''a@example.com'') 4 (last [0, 0, 0, 0])"
    by (intro four_failures empty_store_absent) simp_all
  then have "counted (recordFailedLogins empty_store [0, 0, 0, 0] ''a@example.com'')
          (LOGIN_ATTEMPTS_key ''a@example.com'') 4 0"
    by simp
  from late_failure [OF this, of 1000000] show ?thesis by simp
qed

lemma five_failures:
  "kv (recordFailedLogins empty_store [0, 0, 0, 0, 0] email) (LOGIN_ATTEMPTS_key email) =
     Some (VAttempt \<lparr>attempts = 5, lockedUntil = Some 900000\<rparr>, Some 960000)"
proof -
  define s4 where "s4 = recordFailedLogins empty_store [0, 0, 0, 0] email"
  have "counted s4 (LOGIN_ATTEMPTS_key email) 4 (last [0, 0, 0, 0])"
    unfolding s4_def by (intro four_failures empty_store_absent) simp_all
  then have c4: "counted s4 (LOGIN_ATTEMPTS_key email) 4 0" by simp
  have "kv (snd (recordFailedLogin s4 0 email)) (LOGIN_ATTEMPTS_key email) =
      Some (VAttempt \<lparr>attempts = 5, lockedUntil = Some (0 + 900000)\<rparr>, Some (0 + 960000))"
    by (rule fifth_failure(2) [OF c4]) simp
  moreover have "recordFailedLogins empty_store [0, 0, 0, 0, 0] email = snd (recordFailedLogin s4 0 email)"
    using recordFailedLogins_snoc [of empty_store "[0, 0, 0, 0]" 0 email]
    by (simp only: s4_def append.simps)
  ultimately show ?thesis by (simp del: recordFailedLogins.simps)
qed

lemma five_failures_expired:
  "lock_expired (recordFailedLogins empty_store [0, 0, 0, 0, 0] email) 900000 email"
  by (simp add: lock_expired_def get_attempt_def kv_get_def lock_set_def five_failures
      del: recordFailedLogins.simps)

lemma empty_not_expired: "\<not> lock_expired empty_store t email"
  by (simp add: lock_expired_def get_attempt_def kv_get_def empty_store_def)

text \<open>
  Claim C7, as amended.  \<^verbatim>\<open>checkLoginAttempt\<close> leaves the store untouched unless the
  stored record of the email carries a lock that has run out; in that case it deletes the
  attempt record of that email, issues no other write, and answers allowed.
\<close>

theorem checkLoginAttempt_writes:
  "(\<not> lock_expired s now email \<longrightarrow> snd (checkLoginAttempt s now email) = s) \<and>
   (lock_expired s now email \<longrightarrow>
      snd (checkLoginAttempt s now email) = kv_delete s (LOGIN_ATTEMPTS_key email) \<and>
      allowed (fst (checkLoginAttempt s now email)))"
  by (auto simp: checkLoginAttempt_def lock_expired_def Let_def split: option.splits)

text \<open>
  Both cases of the amended claim: a check on the empty store writes nothing; after five
  failures at time 0, a check at 900 seconds deletes the record and answers allowed.
\<close>

theorem checkLoginAttempt_writes_witness:
  "\<not> lock_expired empty_store 0 ''a@example.com'' \<and>
   snd (checkLoginAttempt empty_store 0 ''a@example.com'') = empty_store \<and>
   lock_expired (recordFailedLogins empty_store [0, 0, 0, 0, 0] ''a@example.com'')
     900000 ''a@example.com'' \<and>
   snd (checkLoginAttempt (recordFailedLogins empty_store [0, 0, 0, 0, 0] ''a@example.com'')
          900000 ''a@example.com'') =
     kv_delete (recordFailedLogins empty_store [0, 0, 0, 0, 0] ''a@example.com'')
       (LOGIN_ATTEMPTS_key ''a@example.com'') \<and>
   allowed (fst (checkLoginAttempt
     (recordFailedLogins empty_store [0, 0, 0, 0, 0] ''a@example.com'') 900000 ''a@example.com''))"
proof -
  define s5 where "s5 = recordFailedLogins empty_store [0, 0, 0, 0, 0] ''a@example.com''"
  have n: "\<not> lock_expired empty_store 0 ''a@example.com''" by (rule empty_not_expired)
  have e: "lock_expired s5 900000 ''a@example.com''"
    unfolding s5_def by (rule five_failures_expired)
  from checkLoginAttempt_writes [of empty_store 0 "''a@example.com''"] n
  have a: "snd (checkLoginAttempt empty_store 0 ''a@example.com'') = empty_store" by blast
  from checkLoginAttempt_writes [of s5 900000 "''a@example.com''"] e
  have b: "snd (checkLoginAttempt s5 900000 ''a@example.com'') =
             kv_delete s5 (LOGIN_ATTEMPTS_key ''a@example.com'') \<and>
           allowed (fst (checkLoginAttempt s5 900000 ''a@example.com''))" by blast
  from n e a b show ?thesis unfolding s5_def by blast
qed

text \<open>
  Claim C7 as stated fails: after five failures at time 0 the lock runs out at 900
  seconds, and a check at that moment changes the store.
\<close>

theorem checkLoginAttempt_not_pure_counterexample:
  "snd (checkLoginAttempt (recordFailedLogins empty_store [0, 0, 0, 0, 0] ''a@example.com'')
          900000 ''a@example.com'')
   \<noteq> recordFailedLogins empty_store [0, 0, 0, 0, 0] ''a@example.com''"
proof -
  define s5 where "s5 = recordFailedLogins empty_store [0, 0, 0, 0, 0] ''a@example.com''"
  have "snd (checkLoginAttempt s5 900000 ''a@example.com'') =
          kv_delete s5 (LOGIN_ATTEMPTS_key ''a@example.com'')"
    unfolding s5_def
    by (simp add: checkLoginAttempt_store five_failures_expired del: recordFailedLogins.simps)
  then have "kv (snd (checkLoginAttempt s5 900000 ''a@example.com''))
               (LOGIN_ATTEMPTS_key ''a@example.com'') = None"
    by simp
  moreover have "kv s5 (LOGIN_ATTEMPTS_key ''a@example.com'') \<noteq> None"
    unfolding s5_def by (simp add: five_failures del: recordFailedLogins.simps)
  ultimately have "snd (checkLoginAttempt s5 900000 ''a@example.com'') \<noteq> s5" by auto
  then show ?thesis unfolding s5_def .
qed

section \<open>Reading all ciphers and folders of a user\<close>

lemma getAllCiphers_loop_eq:
  "getAllCiphers_loop s now ids acc = acc @ List.map_filter (getCipher s now) ids"
  by (induction ids arbitrary: acc) (auto simp: List.map_filter_simps split: option.splits)

lemma getAllFolders_loop_eq:
  "getAllFolders_loop s now ids acc = acc @ List.map_filter (getFolder s now) ids"
  by (induction ids arbitrary: acc) (auto simp: List.map_filter_simps split: option.splits)

lemma set_map_filter: "set (List.map_filter f xs) = {y. \<exists>x \<in> set xs. f x = Some y}"
  by (induction xs) (auto simp: List.map_filter_simps split: option.splits)

lemma getCipherIds_cong:
  "kv s' (CIPHERS_INDEX_key u) = kv s (CIPHERS_INDEX_key u) \<Longrightarrow>
   getCipherIds s' t u = getCipherIds s t u"
  by (simp add: getCipherIds_def kv_get_def)

lemma getCipher_cong:
  "kv s' (CIPHER_key cid) = kv s (CIPHER_key cid) \<Longrightarrow> getCipher s' t cid = getCipher s t cid"
  by (simp add: getCipher_def kv_get_def)

lemma kv_saveCipher:
  "kv (saveCipher s now c) k =
     (if k = CIPHERS_INDEX_key (cipher_userId c) \<and>
         cipher_id c \<notin> set (getCipherIds s now (cipher_userId c))
      then Some (VIds (getCipherIds s now (cipher_userId c) @ [cipher_id c]), None)
      else if k = CIPHER_key (cipher_id c) then Some (VCipher c, None)
      else kv s k)"
  by (auto simp: saveCipher_def Let_def getCipherIds_def key_defs)

lemma getCipher_saveCipher:
  "getCipher (saveCipher s now c) t cid =
     (if cid = cipher_id c then Some c else getCipher s t cid)"
  by (auto simp: getCipher_def kv_get_def kv_saveCipher key_defs)

lemma getCipherIds_saveCipher:
  "getCipherIds (saveCipher s now c) t u =
     (if u = cipher_userId c \<and> cipher_id c \<notin> set (getCipherIds s now u)
      then getCipherIds s now u @ [cipher_id c] else getCipherIds s t u)"
  by (auto simp: getCipherIds_def kv_get_def kv_saveCipher key_defs)

lemma getCipherIds_empty [simp]: "getCipherIds empty_store t u = []"
  by (simp add: getCipherIds_def kv_get_def empty_store_def)

lemma getCipher_empty [simp]: "getCipher empty_store t cid = None"
  by (simp add: getCipher_def kv_get_def empty_store_def)

lemma getCipher_kv_delete:
  "getCipher (kv_delete s k) t cid = (if k = CIPHER_key cid then None else getCipher s t cid)"
  by (auto simp: getCipher_def)

lemma getCipherIds_kv_delete_cipher:
  "getCipherIds (kv_delete s (CIPHER_key cid)) t u = getCipherIds s t u"
  by (simp add: getCipherIds_def key_defs)

section \<open>Bulk move\<close>

lemma cipher_keys_ok_getCipher:
  "cipher_keys_ok s \<Longrightarrow> getCipher s t cid = Some c \<Longrightarrow> cipher_id c = cid"
  by (auto simp: cipher_keys_ok_def getCipher_def kv_get_def
      split: option.splits kvval.splits if_splits)

lemma cipher_keys_ok_saveCipher:
  "cipher_keys_ok s \<Longrightarrow> cipher_keys_ok (saveCipher s now c)"
  by (auto simp: cipher_keys_ok_def kv_saveCipher key_defs)

lemma cipher_keys_ok_empty: "cipher_keys_ok empty_store"
  by (simp add: cipher_keys_ok_def empty_store_def)

lemma loop_keys_ok:
  "cipher_keys_ok s \<Longrightarrow> cipher_keys_ok (bulkMoveCiphers_loop s now ids folderId uid)"
  by (induction ids arbitrary: s) (auto simp: cipher_keys_ok_saveCipher split: option.splits)

lemma loop_getCipher:
  "cipher_keys_ok s \<Longrightarrow>
   getCipher (bulkMoveCiphers_loop s now ids folderId uid) t cid =
     (case getCipher s t cid of
        None \<Rightarrow> (if cid \<in> set ids \<and> (\<exists>c. getCipher s now cid = Some c \<and> cipher_userId c = uid)
                 then Some ((the (getCipher s now cid))\<lparr>cipher_folderId := folderId, cipher_updatedAt := now\<rparr>)
                 else None)
      | Some c \<Rightarrow>
          if cid \<in> set ids \<and> (\<exists>c. getCipher s now cid = Some c \<and> cipher_userId c = uid)
          then Some ((the (getCipher s now cid))\<lparr>cipher_folderId := folderId, cipher_updatedAt := now\<rparr>)
          else Some c)"
proof (induction ids arbitrary: s)
  case Nil
  then show ?case by (simp split: option.splits)
next
  case (Cons x ids)
  show ?case
  proof (cases "getCipher s now x")
    case None
    with Cons show ?thesis by (auto split: option.splits)
  next
    case (Some c)
    show ?thesis
    proof (cases "cipher_userId c = uid")
      case False
      with Some Cons show ?thesis by (auto split: option.splits)
    next
      case True
      let ?c' = "c\<lparr>cipher_folderId := folderId, cipher_updatedAt := now\<rparr>"
      have idc: "cipher_id c = x" using Cons.prems Some by (rule cipher_keys_ok_getCipher)
      have ok: "cipher_keys_ok (saveCipher s now ?c')"
        using Cons.prems by (rule cipher_keys_ok_saveCipher)
      have step: "bulkMoveCiphers_loop s now (x # ids) folderId uid =
                  bulkMoveCiphers_loop (saveCipher s now ?c') now ids folderId uid"
        using Some True by simp
      show ?thesis
        unfolding step Cons.IH [OF ok]
        using Some True idc
        by (auto simp: getCipher_saveCipher split: option.splits)
    qed
  qed
qed

lemma loop_kv_other:
  "cipher_keys_ok s \<Longrightarrow>
   \<not> (cid \<in> set ids \<and> (\<exists>c. getCipher s now cid = Some c \<and> cipher_userId c = uid)) \<Longrightarrow>
   kv (bulkMoveCiphers_loop s now ids folderId uid) (CIPHER_key cid) = kv s (CIPHER_key cid)"
proof (induction ids arbitrary: s)
  case Nil
  then show ?case by simp
next
  case (Cons x ids)
  show ?case
  proof (cases "getCipher s now x")
    case None
    with Cons show ?thesis by auto
  next
    case (Some c)
    show ?thesis
    proof (cases "cipher_userId c = uid")
      case False
      with Some Cons show ?thesis by auto
    next
      case True
      let ?c' = "c\<lparr>cipher_folderId := folderId, cipher_updatedAt := now\<rparr>"
      have idc: "cipher_id c = x" using Cons.prems(1) Some by (rule cipher_keys_ok_getCipher)
      have ok: "cipher_keys_ok (saveCipher s now ?c')"
        using Cons.prems(1) by (rule cipher_keys_ok_saveCipher)
      have ne: "cid \<noteq> x" using Cons.prems(2) Some True by auto
      have step: "bulkMoveCiphers_loop s now (x # ids) folderId uid =
                  bulkMoveCiphers_loop (saveCipher s now ?c') now ids folderId uid"
        using Some True by simp
      have same: "getCipher (saveCipher s now ?c') now cid = getCipher s now cid"
        using ne idc by (simp add: getCipher_saveCipher)
      have "kv (bulkMoveCiphers_loop (saveCipher s now ?c') now ids folderId uid) (CIPHER_key cid)
            = kv (saveCipher s now ?c') (CIPHER_key cid)"
        using Cons.prems(2) same by (intro Cons.IH [OF ok]) auto
      also have "\<dots> = kv s (CIPHER_key cid)"
        using ne idc by (simp add: kv_saveCipher key_defs)
      finally show ?thesis unfolding step .
    qed
  qed
qed

lemma writes_saveCipher':
  "\<exists>ws. writes (saveCipher s now c) = writes s @ ws \<and> (\<forall>w \<in> set ws. cipher_write w)"
  by (auto simp: saveCipher_def Let_def cipher_write_def)

lemma loop_writes:
  "\<exists>ws. writes (bulkMoveCiphers_loop s now ids folderId uid) = writes s @ ws \<and>
        (\<forall>w \<in> set ws. cipher_write w)"
proof (induction ids arbitrary: s)
  case Nil
  then show ?case by simp
next
  case (Cons x ids)
  show ?case
  proof (cases "\<exists>c. getCipher s now x = Some c \<and> cipher_userId c = uid")
    case False
    then have "bulkMoveCiphers_loop s now (x # ids) folderId uid =
               bulkMoveCiphers_loop s now ids folderId uid"
      by (auto split: option.splits)
    with Cons.IH [of s] show ?thesis by simp
  next
    case True
    then obtain c where c: "getCipher s now x = Some c" "cipher_userId c = uid" by blast
    let ?s1 = "saveCipher s now (c\<lparr>cipher_folderId := folderId, cipher_updatedAt := now\<rparr>)"
    from writes_saveCipher' [of s now "c\<lparr>cipher_folderId := folderId, cipher_updatedAt := now\<rparr>"]
    obtain ws1 where w1: "writes ?s1 = writes s @ ws1" "\<forall>w \<in> set ws1. cipher_write w" by blast
    from Cons.IH [of ?s1]
    obtain ws2 where w2: "writes (bulkMoveCiphers_loop ?s1 now ids folderId uid) = writes ?s1 @ ws2"
      "\<forall>w \<in> set ws2. cipher_write w" by blast
    have "writes (bulkMoveCiphers_loop s now (x # ids) folderId uid) = writes s @ (ws1 @ ws2)"
      using c w1 w2 by simp
    moreover have "\<forall>w \<in> set (ws1 @ ws2). cipher_write w" using w1 w2 by auto
    ultimately show ?thesis by blast
  qed
qed

lemma cipher_write_not_revision: "cipher_write w \<Longrightarrow> w \<noteq> Put (REVISION_DATE_key u)"
  by (auto simp: cipher_write_def key_defs)

lemma count_list_0: "(\<forall>w \<in> set ws. w \<noteq> x) \<Longrightarrow> count_list ws x = 0"
  by (induction ws) auto

text \<open>
  Claim C5.  In a store where every cipher lies under the key of its own id,
  \<^verbatim>\<open>bulkMoveCiphers\<close> gives every cipher of the list that exists and is owned by the
  user the new folder id and \<open>updatedAt = now\<close>, leaves the entry of every other cipher
  as it is, and writes the revision stamp of the user exactly once, whatever the list
  holds; the stamp is then \<open>now\<close>.
\<close>

theorem bulkMoveCiphers_effect:
  assumes "cipher_keys_ok s"
  shows
    "(cid \<in> set ids \<and> getCipher s now cid = Some c \<and> cipher_userId c = uid \<longrightarrow>
        getCipher (bulkMoveCiphers s now ids folderId uid) now cid =
          Some (c\<lparr>cipher_folderId := folderId, cipher_updatedAt := now\<rparr>)) \<and>
     (\<not> (cid \<in> set ids \<and> (\<exists>c'. getCipher s now cid = Some c' \<and> cipher_userId c' = uid)) \<longrightarrow>
        kv (bulkMoveCiphers s now ids folderId uid) (CIPHER_key cid) = kv s (CIPHER_key cid)) \<and>
     count_list (new_writes s (bulkMoveCiphers s now ids folderId uid))
       (Put (REVISION_DATE_key uid)) = 1 \<and>
     kv_get (bulkMoveCiphers s now ids folderId uid) t (REVISION_DATE_key uid) = Some (VDate now)"
proof (intro conjI impI)
  let ?l = "bulkMoveCiphers_loop s now ids folderId uid"
  have b: "bulkMoveCiphers s now ids folderId uid = kv_put ?l (REVISION_DATE_key uid) (VDate now)"
    by (simp add: bulkMoveCiphers_def updateRevisionDate_def)
  {
    assume a: "cid \<in> set ids \<and> getCipher s now cid = Some c \<and> cipher_userId c = uid"
    have "getCipher (bulkMoveCiphers s now ids folderId uid) now cid = getCipher ?l now cid"
      unfolding b by (rule getCipher_cong) (simp add: key_defs)
    also have "\<dots> = Some (c\<lparr>cipher_folderId := folderId, cipher_updatedAt := now\<rparr>)"
      using a by (simp add: loop_getCipher [OF assms])
    finally show "getCipher (bulkMoveCiphers s now ids folderId uid) now cid =
          Some (c\<lparr>cipher_folderId := folderId, cipher_updatedAt := now\<rparr>)" .
  }
  {
    assume a: "\<not> (cid \<in> set ids \<and> (\<exists>c'. getCipher s now cid = Some c' \<and> cipher_userId c' = uid))"
    have "kv (bulkMoveCiphers s now ids folderId uid) (CIPHER_key cid) = kv ?l (CIPHER_key cid)"
      unfolding b by (simp add: key_defs)
    also have "\<dots> = kv s (CIPHER_key cid)"
      using assms a by (rule loop_kv_other)
    finally show "kv (bulkMoveCiphers s now ids folderId uid) (CIPHER_key cid) =
        kv s (CIPHER_key cid)" .
  }
  from loop_writes [of s now ids folderId uid]
  obtain ws where ws: "writes ?l = writes s @ ws" "\<forall>w \<in> set ws. cipher_write w" by blast
  have "count_list ws (Put (REVISION_DATE_key uid)) = 0"
    using ws(2) by (intro count_list_0) (auto dest: cipher_write_not_revision)
  then show "count_list (new_writes s (bulkMoveCiphers s now ids folderId uid))
       (Put (REVISION_DATE_key uid)) = 1"
    unfolding b by (simp add: new_writes_def ws(1))
  show "kv_get (bulkMoveCiphers s now ids folderId uid) t (REVISION_DATE_key uid) =
      Some (VDate now)"
    unfolding b by simp
qed

lemma handleBulkMoveCiphers_calls:
  "handleBulkMoveCiphers s now userId (Some \<lparr>mb_ids = Some ids, mb_folderId = folderId\<rparr>) =
     (\<lparr>status = 204, payload = NoBody\<rparr>,
      bulkMoveCiphers s now ids (if truthy_str folderId then folderId else None) userId)"
  by (simp add: handleBulkMoveCiphers_def)

text \<open>
  Two ciphers of two users and a list that names both and an id that does not exist: the
  cipher of the user is moved, the other one is untouched; on an empty list the revision
  stamp is still written once.
\<close>

theorem bulkMoveCiphers_effect_witness:
  "cipher_keys_ok (saveCipher (saveCipher empty_store 0 (example_cipher ''c1'' ''u1'' None)) 0
                     (example_cipher ''c2'' ''u2'' None)) \<and>
   getCipher (bulkMoveCiphers
       (saveCipher (saveCipher empty_store 0 (example_cipher ''c1'' ''u1'' None)) 0
          (example_cipher ''c2'' ''u2'' None))
       5 [''c1'', ''c2'', ''c3''] (Some ''f1'') ''u1'') 5 ''c1''
     = Some ((example_cipher ''c1'' ''u1'' None)\<lparr>cipher_folderId := Some ''f1'', cipher_updatedAt := 5\<rparr>) \<and>
   kv (bulkMoveCiphers
       (saveCipher (saveCipher empty_store 0 (example_cipher ''c1'' ''u1'' None)) 0
          (example_cipher ''c2'' ''u2'' None))
       5 [''c1'', ''c2'', ''c3''] (Some ''f1'') ''u1'') (CIPHER_key ''c2'')
     = Some (VCipher (example_cipher ''c2'' ''u2'' None), None) \<and>
   count_list (new_writes empty_store (bulkMoveCiphers empty_store 5 [] None ''u1''))
     (Put (REVISION_DATE_key ''u1'')) = 1"
proof -
  define s0 where "s0 = saveCipher (saveCipher empty_store 0 (example_cipher ''c1'' ''u1'' None)) 0
                     (example_cipher ''c2'' ''u2'' None)"
  have ok: "cipher_keys_ok s0"
    unfolding s0_def by (intro cipher_keys_ok_saveCipher cipher_keys_ok_empty)
  have c1: "getCipher s0 5 ''c1'' = Some (example_cipher ''c1'' ''u1'' None)"
    by (simp add: s0_def getCipher_saveCipher)
  have c2: "getCipher s0 5 ''c2'' = Some (example_cipher ''c2'' ''u2'' None)"
    by (simp add: s0_def getCipher_saveCipher)
  have k2: "kv s0 (CIPHER_key ''c2'') = Some (VCipher (example_cipher ''c2'' ''u2'' None), None)"
    by (simp add: s0_def kv_saveCipher key_defs)
  from bulkMoveCiphers_effect [OF ok, of "''c1''" "[''c1'', ''c2'', ''c3'']" 5
         "example_cipher ''c1'' ''u1'' None" "''u1''" "Some ''f1''"] c1
  have m1: "getCipher (bulkMoveCiphers s0 5 [''c1'', ''c2'', ''c3''] (Some ''f1'') ''u1'') 5 ''c1''
     = Some ((example_cipher ''c1'' ''u1'' None)\<lparr>cipher_folderId := Some ''f1'', cipher_updatedAt := 5\<rparr>)"
    by simp
  from bulkMoveCiphers_effect [OF ok, of "''c2''" "[''c1'', ''c2'', ''c3'']" 5 _ "''u1''" "Some ''f1''"]
    c2 k2
  have m2: "kv (bulkMoveCiphers s0 5 [''c1'', ''c2'', ''c3''] (Some ''f1'') ''u1'') (CIPHER_key ''c2'')
     = Some (VCipher (example_cipher ''c2'' ''u2'' None), None)"
    by simp
  from bulkMoveCiphers_effect [OF cipher_keys_ok_empty, of _ "[]" 5 _ "''u1''" None]
  have m3: "count_list (new_writes empty_store (bulkMoveCiphers empty_store 5 [] None ''u1''))
     (Put (REVISION_DATE_key ''u1'')) = 1"
    by simp
  from ok m1 m2 m3 show ?thesis unfolding s0_def by blast
qed

section \<open>Folders and the revision stamp\<close>

lemmas response_defs = errorResponse_def jsonResponse_def

lemma example_folder_simps [simp]:
  "folder_id (example_folder fid uid) = fid"
  "folder_userId (example_folder fid uid) = uid"
  by (simp_all add: example_folder_def)

lemma kv_saveFolder:
  "kv (saveFolder s now f) k =
     (if k = FOLDERS_INDEX_key (folder_userId f) \<and>
         folder_id f \<notin> set (getFolderIds s now (folder_userId f))
      then Some (VIds (getFolderIds s now (folder_userId f) @ [folder_id f]), None)
      else if k = FOLDER_key (folder_id f) then Some (VFolder f, None)
      else kv s k)"
  by (auto simp: saveFolder_def Let_def getFolderIds_def key_defs)

lemma kv_deleteFolder:
  "kv (deleteFolder s now fid uid) k =
     (if k = FOLDERS_INDEX_key uid
      then Some (VIds (filter (\<lambda>x. x \<noteq> fid) (getFolderIds s now uid)), None)
      else if k = FOLDER_key fid then None
      else kv s k)"
  by (auto simp: deleteFolder_def Let_def getFolderIds_def key_defs)

lemma getFolder_cong:
  "kv s' (FOLDER_key fid) = kv s (FOLDER_key fid) \<Longrightarrow> getFolder s' t fid = getFolder s t fid"
  by (simp add: getFolder_def kv_get_def)

lemma getFolder_saveFolder:
  "getFolder (saveFolder s now f) t fid =
     (if fid = folder_id f then Some f else getFolder s t fid)"
  by (auto simp: getFolder_def kv_get_def kv_saveFolder key_defs)

lemma getFolder_deleteFolder:
  "getFolder (deleteFolder s now fid' uid) t fid =
     (if fid = fid' then None else getFolder s t fid)"
  by (auto simp: getFolder_def kv_get_def kv_deleteFolder key_defs)

lemma getFolder_saveCipher: "getFolder (saveCipher s now c) t fid = getFolder s t fid"
  by (rule getFolder_cong) (simp add: kv_saveCipher key_defs)

lemma getFolder_empty [simp]: "getFolder empty_store t fid = None"
  by (simp add: getFolder_def kv_get_def empty_store_def)

lemma getCipher_saveFolder: "getCipher (saveFolder s now f) t cid = getCipher s t cid"
  by (rule getCipher_cong) (simp add: kv_saveFolder key_defs)

lemma getCipherIds_saveFolder: "getCipherIds (saveFolder s now f) t u = getCipherIds s t u"
  by (rule getCipherIds_cong) (simp add: kv_saveFolder key_defs)

lemma getAllCiphers_cong:
  assumes "\<And>cid. kv s' (CIPHER_key cid) = kv s (CIPHER_key cid)"
    and "kv s' (CIPHERS_INDEX_key u) = kv s (CIPHERS_INDEX_key u)"
  shows "getAllCiphers s' t u = getAllCiphers s t u"
proof -
  have "getCipher s' t = getCipher s t"
    using assms(1) by (intro ext getCipher_cong)
  moreover have "getCipherIds s' t u = getCipherIds s t u"
    using assms(2) by (rule getCipherIds_cong)
  ultimately show ?thesis
    by (simp add: getAllCiphers_def getAllCiphers_loop_eq)
qed

lemma handleDeleteFolder_kv:
  "k \<noteq> FOLDER_key fid \<Longrightarrow> k \<noteq> FOLDERS_INDEX_key userId \<Longrightarrow>
   kv (snd (handleDeleteFolder s now userId fid)) k = kv s k"
  by (simp add: handleDeleteFolder_def kv_deleteFolder split: option.splits)

text \<open>
  Claim C10.  \<^verbatim>\<open>handleDeleteFolder\<close> leaves the entry of every cipher as it is, so every
  cipher reads as before and \<^verbatim>\<open>getAllCiphers\<close> returns what it returned before, for
  every user and at every clock value.  When the folder exists and is owned by the caller,
  the answer is 204 and the folder is gone, while every cipher that named the folder is
  still returned, with that \<open>folderId\<close>.
\<close>

theorem handleDeleteFolder_keeps_ciphers:
  "kv (snd (handleDeleteFolder s now userId fid)) (CIPHER_key cid) = kv s (CIPHER_key cid) \<and>
   getCipher (snd (handleDeleteFolder s now userId fid)) t cid = getCipher s t cid \<and>
   getAllCiphers (snd (handleDeleteFolder s now userId fid)) t u = getAllCiphers s t u \<and>
   (getFolder s now fid = Some f \<and> folder_userId f = userId \<longrightarrow>
      fst (handleDeleteFolder s now userId fid) = \<lparr>status = 204, payload = NoBody\<rparr> \<and>
      getFolder (snd (handleDeleteFolder s now userId fid)) t fid = None \<and>
      (c \<in> set (getAllCiphers s t userId) \<and> cipher_folderId c = Some fid \<longrightarrow>
         c \<in> set (getAllCiphers (snd (handleDeleteFolder s now userId fid)) t userId)))"
proof -
  let ?s' = "snd (handleDeleteFolder s now userId fid)"
  have k: "\<And>cid. kv ?s' (CIPHER_key cid) = kv s (CIPHER_key cid)"
    by (rule handleDeleteFolder_kv) (simp_all add: key_defs)
  have i: "\<And>u. kv ?s' (CIPHERS_INDEX_key u) = kv s (CIPHERS_INDEX_key u)"
    by (rule handleDeleteFolder_kv) (simp_all add: key_defs)
  have a: "\<And>u. getAllCiphers ?s' t u = getAllCiphers s t u"
    using k i by (rule getAllCiphers_cong)
  have g: "getCipher ?s' t cid = getCipher s t cid"
    using k by (rule getCipher_cong)
  have d: "getFolder s now fid = Some f \<and> folder_userId f = userId \<longrightarrow>
      fst (handleDeleteFolder s now userId fid) = \<lparr>status = 204, payload = NoBody\<rparr> \<and>
      getFolder ?s' t fid = None"
    by (simp add: handleDeleteFolder_def getFolder_deleteFolder)
  from k a g d show ?thesis by simp
qed

text \<open>
  A folder and a cipher filed in it: after the folder is deleted it cannot be fetched,
  and the cipher is returned as it was, naming the deleted folder.
\<close>

theorem handleDeleteFolder_keeps_ciphers_witness:
  "getFolder (saveCipher (saveFolder empty_store 0 (example_folder ''f1'' ''u1'')) 0
       (example_cipher ''c1'' ''u1'' (Some ''f1''))) 5 ''f1'' = Some (example_folder ''f1'' ''u1'') \<and>
   getFolder (snd (handleDeleteFolder
       (saveCipher (saveFolder empty_store 0 (example_folder ''f1'' ''u1'')) 0
          (example_cipher ''c1'' ''u1'' (Some ''f1''))) 5 ''u1'' ''f1'')) 6 ''f1'' = None \<and>
   getAllCiphers (snd (handleDeleteFolder
       (saveCipher (saveFolder empty_store 0 (example_folder ''f1'' ''u1'')) 0
          (example_cipher ''c1'' ''u1'' (Some ''f1''))) 5 ''u1'' ''f1'')) 6 ''u1''
     = [example_cipher ''c1'' ''u1'' (Some ''f1'')]"
proof -
  define s0 where "s0 = saveCipher (saveFolder empty_store 0 (example_folder ''f1'' ''u1'')) 0
          (example_cipher ''c1'' ''u1'' (Some ''f1''))"
  have f: "getFolder s0 5 ''f1'' = Some (example_folder ''f1'' ''u1'')"
    by (simp add: s0_def getFolder_saveCipher getFolder_saveFolder)
  have a: "getAllCiphers s0 6 ''u1'' = [example_cipher ''c1'' ''u1'' (Some ''f1'')]"
    by (simp add: s0_def getAllCiphers_def getCipherIds_saveCipher getCipherIds_saveFolder
        getCipher_saveCipher)
  from handleDeleteFolder_keeps_ciphers [of s0 5 "''u1''" "''f1''" _ 6 "''u1''"
         "example_folder ''f1'' ''u1''"] f a
  have "getFolder (snd (handleDeleteFolder s0 5 ''u1'' ''f1'')) 6 ''f1'' = None \<and>
        getAllCiphers (snd (handleDeleteFolder s0 5 ''u1'' ''f1'')) 6 ''u1''
          = [example_cipher ''c1'' ''u1'' (Some ''f1'')]"
    by simp
  with f show ?thesis unfolding s0_def by blast
qed

lemma getRevisionDate_cong:
  "kv s' (REVISION_DATE_key u) = kv s (REVISION_DATE_key u) \<Longrightarrow>
   getRevisionDate s' t u = getRevisionDate s t u"
  by (simp add: getRevisionDate_def kv_get_def)

lemma getRevisionDate_update [simp]:
  "getRevisionDate (snd (updateRevisionDate s now u)) t u = now"
  by (simp add: getRevisionDate_def updateRevisionDate_def)

lemma getFolder_update [simp]:
  "getFolder (snd (updateRevisionDate s now u)) t fid = getFolder s t fid"
  by (simp add: getFolder_def updateRevisionDate_def key_defs)

lemma handleCreateFolder_revision:
  "kv (snd (handleCreateFolder s now uuid userId body)) (REVISION_DATE_key u) =
     kv s (REVISION_DATE_key u)"
  by (simp add: handleCreateFolder_def kv_saveFolder key_defs Let_def split: option.splits)

lemma handleUpdateFolder_revision:
  "kv (snd (handleUpdateFolder s now userId fid body)) (REVISION_DATE_key u) =
     kv s (REVISION_DATE_key u)"
  by (simp add: handleUpdateFolder_def kv_saveFolder key_defs Let_def split: option.splits)

lemma handleDeleteFolder_revision:
  "kv (snd (handleDeleteFolder s now userId fid)) (REVISION_DATE_key u) =
     kv s (REVISION_DATE_key u)"
  by (simp add: handleDeleteFolder_def kv_deleteFolder key_defs split: option.splits)

lemma handleCreateFolder_creates:
  "name \<noteq> [] \<Longrightarrow>
   getFolder (snd (handleCreateFolder s now uuid userId (Some \<lparr>fb_name = Some name\<rparr>))) t uuid =
     Some \<lparr>folder_id = uuid, folder_userId = userId, folder_name = name,
           folder_createdAt = now, folder_updatedAt = now\<rparr>"
  by (simp add: handleCreateFolder_def truthy_str_def getFolder_saveFolder Let_def)

lemma handleUpdateFolder_updates:
  "getFolder s now fid = Some f \<Longrightarrow> folder_userId f = userId \<Longrightarrow> folder_id f = fid \<Longrightarrow>
   name \<noteq> [] \<Longrightarrow>
   getFolder (snd (handleUpdateFolder s now userId fid (Some \<lparr>fb_name = Some name\<rparr>))) t fid =
     Some (f\<lparr>folder_name := name, folder_updatedAt := now\<rparr>)"
  by (simp add: handleUpdateFolder_def truthy_str_def getFolder_saveFolder Let_def)

lemma handleDeleteFolder_deletes:
  "getFolder s now fid = Some f \<Longrightarrow> folder_userId f = userId \<Longrightarrow>
   getFolder (snd (handleDeleteFolder s now userId fid)) t fid = None"
  by (simp add: handleDeleteFolder_def getFolder_deleteFolder)

text \<open>
  The cipher handlers write the revision stamp of the caller whenever they change a
  cipher: after a successful call the stamp is the clock value of the call.
\<close>

lemma handleCreateCipher_revision:
  "status (fst (handleCreateCipher s now uuid userId body)) = 200 \<Longrightarrow>
   kv_get (snd (handleCreateCipher s now uuid userId body)) t (REVISION_DATE_key userId) =
     Some (VDate now)"
  by (auto simp: handleCreateCipher_def updateRevisionDate_def response_defs Let_def
      split: option.splits)

lemma handleUpdateCipher_revision:
  "status (fst (handleUpdateCipher s now userId cid body)) = 200 \<Longrightarrow>
   kv_get (snd (handleUpdateCipher s now userId cid body)) t (REVISION_DATE_key userId) =
     Some (VDate now)"
  by (auto simp: handleUpdateCipher_def updateRevisionDate_def response_defs Let_def
      split: option.splits if_splits)

lemma handleDeleteCipher_revision:
  "status (fst (handleDeleteCipher s now userId cid)) = 200 \<Longrightarrow>
   kv_get (snd (handleDeleteCipher s now userId cid)) t (REVISION_DATE_key userId) =
     Some (VDate now)"
  by (auto simp: handleDeleteCipher_def updateRevisionDate_def response_defs Let_def
      split: option.splits if_splits)

lemma handlePermanentDeleteCipher_revision:
  "status (fst (handlePermanentDeleteCipher delAtt s now userId cid)) = 204 \<Longrightarrow>
   kv_get (snd (handlePermanentDeleteCipher delAtt s now userId cid)) t
     (REVISION_DATE_key userId) = Some (VDate now)"
  by (auto simp: handlePermanentDeleteCipher_def updateRevisionDate_def response_defs Let_def
      split: option.splits if_splits)

lemma handleRestoreCipher_revision:
  "status (fst (handleRestoreCipher s now userId cid)) = 200 \<Longrightarrow>
   kv_get (snd (handleRestoreCipher s now userId cid)) t (REVISION_DATE_key userId) =
     Some (VDate now)"
  by (auto simp: handleRestoreCipher_def updateRevisionDate_def response_defs Let_def
      split: option.splits if_splits)

lemma handlePartialUpdateCipher_revision:
  "status (fst (handlePartialUpdateCipher s now userId cid body)) = 200 \<Longrightarrow>
   kv_get (snd (handlePartialUpdateCipher s now userId cid body)) t (REVISION_DATE_key userId) =
     Some (VDate now)"
  by (auto simp: handlePartialUpdateCipher_def updateRevisionDate_def response_defs Let_def
      split: option.splits if_splits)

lemma handleBulkMoveCiphers_revision:
  "status (fst (handleBulkMoveCiphers s now userId body)) = 204 \<Longrightarrow>
   kv_get (snd (handleBulkMoveCiphers s now userId body)) t (REVISION_DATE_key userId) =
     Some (VDate now)"
  by (auto simp: handleBulkMoveCiphers_def bulkMoveCiphers_def updateRevisionDate_def
      response_defs split: option.splits if_splits)

text \<open>
  The read handlers (\<^verbatim>\<open>handleGetFolders\<close>, \<^verbatim>\<open>handleGetFolder\<close>, \<^verbatim>\<open>handleGetCipher\<close>,
  \<^verbatim>\<open>handleGetProfile\<close>, \<^verbatim>\<open>handleGetRevisionDate\<close>) only call \<^verbatim>\<open>kv.get\<close>: they are
  functions of the store and return no new one.  A user without a stored stamp is shown
  the current clock value by \<^verbatim>\<open>handleGetRevisionDate\<close>.
\<close>

lemma handleGetRevisionDate_default:
  "kv s (REVISION_DATE_key userId) = None \<Longrightarrow>
   handleGetRevisionDate s now userId = \<lparr>status = 200, payload = TimestampBody now\<rparr>"
  by (simp add: handleGetRevisionDate_def getRevisionDate_def kv_get_absent response_defs)

text \<open>
  Claim C1 at a failing input.  The revision stamp of user \<open>u1\<close> is 1000.  The user
  creates a folder at 2000, renames it at 3000 and deletes it at 4000; each call succeeds
  and changes the folder, and after each of them the revision stamp is still 1000.  The
  folder handlers never call \<^verbatim>\<open>updateRevisionDate\<close>, which every cipher handler does.
\<close>

theorem folder_handlers_keep_revision_stamp:
  "(let s1 = snd (updateRevisionDate empty_store 1000 ''u1'');
        s2 = snd (handleCreateFolder s1 2000 ''f1'' ''u1'' (Some \<lparr>fb_name = Some ''Work''\<rparr>));
        s3 = snd (handleUpdateFolder s2 3000 ''u1'' ''f1'' (Some \<lparr>fb_name = Some ''Home''\<rparr>));
        s4 = snd (handleDeleteFolder s3 4000 ''u1'' ''f1'')
    in getRevisionDate s1 1000 ''u1'' = 1000 \<and>
       getFolder s1 2000 ''f1'' = None \<and>
       getFolder s2 2000 ''f1'' =
         Some \<lparr>folder_id = ''f1'', folder_userId = ''u1'', folder_name = ''Work'',
               folder_createdAt = 2000, folder_updatedAt = 2000\<rparr> \<and>
       getRevisionDate s2 2000 ''u1'' = 1000 \<and>
       getFolder s3 3000 ''f1'' =
         Some \<lparr>folder_id = ''f1'', folder_userId = ''u1'', folder_name = ''Home'',
               folder_createdAt = 2000, folder_updatedAt = 3000\<rparr> \<and>
       getRevisionDate s3 3000 ''u1'' = 1000 \<and>
       getFolder s4 4000 ''f1'' = None \<and>
       getRevisionDate s4 4000 ''u1'' = 1000)"
proof -
  define s1 where "s1 = snd (updateRevisionDate empty_store 1000 ''u1'')"
  define s2 where
    "s2 = snd (handleCreateFolder s1 2000 ''f1'' ''u1'' (Some \<lparr>fb_name = Some ''Work''\<rparr>))"
  define s3 where
    "s3 = snd (handleUpdateFolder s2 3000 ''u1'' ''f1'' (Some \<lparr>fb_name = Some ''Home''\<rparr>))"
  define s4 where "s4 = snd (handleDeleteFolder s3 4000 ''u1'' ''f1'')"
  have r1: "getRevisionDate s1 t ''u1'' = 1000" for t by (simp add: s1_def)
  have f1: "getFolder s1 2000 ''f1'' = None" by (simp add: s1_def)
  have f2: "getFolder s2 t ''f1'' =
         Some \<lparr>folder_id = ''f1'', folder_userId = ''u1'', folder_name = ''Work'',
               folder_createdAt = 2000, folder_updatedAt = 2000\<rparr>" for t
    unfolding s2_def by (rule handleCreateFolder_creates) simp
  have r2: "getRevisionDate s2 t ''u1'' = 1000" for t
    unfolding s2_def by (simp add: getRevisionDate_cong [OF handleCreateFolder_revision] r1)
  have f3: "getFolder s3 t ''f1'' =
         Some \<lparr>folder_id = ''f1'', folder_userId = ''u1'', folder_name = ''Home'',
               folder_createdAt = 2000, folder_updatedAt = 3000\<rparr>" for t
    unfolding s3_def by (simp add: handleUpdateFolder_updates [OF f2])
  have r3: "getRevisionDate s3 t ''u1'' = 1000" for t
    unfolding s3_def by (simp add: getRevisionDate_cong [OF handleUpdateFolder_revision] r2)
  have f4: "getFolder s4 4000 ''f1'' = None"
    unfolding s4_def by (rule handleDeleteFolder_deletes [OF f3]) simp
  have r4: "getRevisionDate s4 t ''u1'' = 1000" for t
    unfolding s4_def by (simp add: getRevisionDate_cong [OF handleDeleteFolder_revision] r3)
  from r1 f1 f2 r2 f3 r3 f4 r4 show ?thesis
    unfolding Let_def s1_def [symmetric] s2_def [symmetric] s3_def [symmetric] s4_def [symmetric]
    by simp
qed

section \<open>Profile update\<close>

lemma example_user_simps [simp]:
  "user_id (example_user uid mail) = uid"
  "user_email (example_user uid mail) = mail"
  by (simp_all add: example_user_def)

lemma lower_char_idem: "lower_char (lower_char c) = lower_char c"
  by (auto simp: lower_char_def Let_def)

lemma toLowerCase_idem [simp]: "toLowerCase (toLowerCase x) = toLowerCase x"
  by (simp add: toLowerCase_def lower_char_idem)

lemma toLowerCase_Nil [simp]: "(toLowerCase x = []) = (x = [])"
  by (simp add: toLowerCase_def)

lemma getUser_saveUser:
  "getUser (saveUser s u) t e =
     (if toLowerCase e = toLowerCase (user_email u) then Some u else getUser s t e)"
  by (auto simp: getUser_def saveUser_def key_defs)

lemma getUserById_saveUser:
  "user_email u \<noteq> [] \<Longrightarrow> getUserById (saveUser s u) t (user_id u) = Some u"
  by (simp add: getUserById_def getUser_def saveUser_def key_defs)

lemma saveUser_revision:
  "kv (saveUser s u) (REVISION_DATE_key v) = kv s (REVISION_DATE_key v)"
  by (simp add: saveUser_def key_defs)

lemma handleUpdateProfile_revision:
  "kv (snd (handleUpdateProfile s now userId body)) (REVISION_DATE_key v) =
     kv s (REVISION_DATE_key v)"
  by (simp add: handleUpdateProfile_def saveUser_revision Let_def split: option.splits)

lemma handleUpdateProfile_response:
  assumes "getUserById s now userId = Some u" "user_id u = userId" "user_email u \<noteq> []"
    "name \<noteq> []"
  shows "fst (handleUpdateProfile s now userId
                (Some \<lparr>pb_name = Some name, pb_masterPasswordHint = hint\<rparr>)) =
           jsonResponse (ProfileBody
             \<lparr>pr_id = userId, pr_name = name, pr_email = user_email u, pr_key = user_key u,
              pr_privateKey = user_privateKey u,
              pr_securityStamp =
                (if user_securityStamp u \<noteq> [] then user_securityStamp u else userId),
              pr_creationDate = user_createdAt u\<rparr>) 200"
proof -
  let ?u2 = "u\<lparr>user_name := name, user_updatedAt := now\<rparr>"
  have id: "user_id ?u2 = userId" and em: "user_email ?u2 \<noteq> []" using assms by simp_all
  have "getUserById (saveUser s ?u2) now userId = Some ?u2"
    using getUserById_saveUser [OF em, of s now] id by simp
  then show ?thesis
    using assms
    by (simp add: handleUpdateProfile_def handleGetProfile_def truthy_str_def Let_def)
qed

lemma getUser_update [simp]:
  "getUser (snd (updateRevisionDate s now u)) t e = getUser s t e"
  by (simp add: getUser_def updateRevisionDate_def key_defs)

lemma getUserById_update [simp]:
  "getUserById (snd (updateRevisionDate s now u)) t uid = getUserById s t uid"
proof -
  have "kv_get (snd (updateRevisionDate s now u)) t (USERID_key uid) = kv_get s t (USERID_key uid)"
    by (simp add: updateRevisionDate_def key_defs)
  then show ?thesis by (simp add: getUserById_def split: option.splits kvval.splits)
qed

text \<open>
  Claim C6, as amended.  For a stored user (found under the id, carrying that id and an
  email), a PUT to the profile endpoint with a non-empty name, such as \<^verbatim>\<open>New\<close>,
  answers 200 with a profile of that user whose name is the new name; the revision stamp
  of the user is left as it is.
\<close>

theorem handleUpdateProfile_name_and_stamp:
  assumes "getUserById s now userId = Some u" "user_id u = userId" "user_email u \<noteq> []"
    "name \<noteq> []"
  shows
    "status (fst (handleUpdateProfile s now userId
               (Some \<lparr>pb_name = Some name, pb_masterPasswordHint = hint\<rparr>))) = 200 \<and>
     (\<exists>p. payload (fst (handleUpdateProfile s now userId
               (Some \<lparr>pb_name = Some name, pb_masterPasswordHint = hint\<rparr>))) = ProfileBody p \<and>
          pr_name p = name \<and> pr_id p = userId) \<and>
     kv (snd (handleUpdateProfile s now userId
               (Some \<lparr>pb_name = Some name, pb_masterPasswordHint = hint\<rparr>)))
        (REVISION_DATE_key userId) = kv s (REVISION_DATE_key userId) \<and>
     getRevisionDate (snd (handleUpdateProfile s now userId
               (Some \<lparr>pb_name = Some name, pb_masterPasswordHint = hint\<rparr>))) t userId =
       getRevisionDate s t userId"
  using handleUpdateProfile_response [OF assms, of hint]
    getRevisionDate_cong [OF handleUpdateProfile_revision]
  by (simp add: handleUpdateProfile_revision response_defs)

text \<open>A stored user renamed to \<^verbatim>\<open>New\<close>.\<close>

theorem handleUpdateProfile_name_and_stamp_witness:
  "getUserById (snd (updateRevisionDate (saveUser empty_store (example_user ''u1'' ''a@example.com''))
       1000 ''u1'')) 2000 ''u1'' = Some (example_user ''u1'' ''a@example.com'') \<and>
   status (fst (handleUpdateProfile
       (snd (updateRevisionDate (saveUser empty_store (example_user ''u1'' ''a@example.com''))
          1000 ''u1''))
       2000 ''u1'' (Some \<lparr>pb_name = Some ''New'', pb_masterPasswordHint = None\<rparr>))) = 200 \<and>
   (\<exists>p. payload (fst (handleUpdateProfile
       (snd (updateRevisionDate (saveUser empty_store (example_user ''u1'' ''a@example.com''))
          1000 ''u1''))
       2000 ''u1'' (Some \<lparr>pb_name = Some ''New'', pb_masterPasswordHint = None\<rparr>))) = ProfileBody p \<and>
     pr_name p = ''New'')"
proof -
  define s0 where "s0 = snd (updateRevisionDate
      (saveUser empty_store (example_user ''u1'' ''a@example.com'')) 1000 ''u1'')"
  have g: "getUserById s0 2000 ''u1'' = Some (example_user ''u1'' ''a@example.com'')"
    using getUserById_saveUser [of "example_user ''u1'' ''a@example.com''" empty_store 2000]
    by (simp add: s0_def)
  from handleUpdateProfile_name_and_stamp [OF g, of "''New''" None]
  have "status (fst (handleUpdateProfile s0 2000 ''u1''
          (Some \<lparr>pb_name = Some ''New'', pb_masterPasswordHint = None\<rparr>))) = 200 \<and>
        (\<exists>p. payload (fst (handleUpdateProfile s0 2000 ''u1''
          (Some \<lparr>pb_name = Some ''New'', pb_masterPasswordHint = None\<rparr>))) = ProfileBody p \<and>
          pr_name p = ''New'')"
    by auto
  with g show ?thesis unfolding s0_def by blast
qed

text \<open>
  Claim C6 as stated fails: the revision stamp of the user is 1000 before the profile
  update made at 2000 and is 1000 after it.
\<close>

theorem handleUpdateProfile_stamp_counterexample:
  "getRevisionDate
     (snd (updateRevisionDate (saveUser empty_store (example_user ''u1'' ''a@example.com''))
        1000 ''u1'')) 2000 ''u1'' = 1000 \<and>
   getRevisionDate (snd (handleUpdateProfile
       (snd (updateRevisionDate (saveUser empty_store (example_user ''u1'' ''a@example.com''))
          1000 ''u1''))
       2000 ''u1'' (Some \<lparr>pb_name = Some ''New'', pb_masterPasswordHint = None\<rparr>))) 2000 ''u1''
     = 1000"
  by (simp add: getRevisionDate_cong [OF handleUpdateProfile_revision])

section \<open>The signing secret\<close>

text \<open>
  Claim C8.  When \<^verbatim>\<open>JWT_SECRET\<close> is absent or empty, \<^verbatim>\<open>fetch\<close> answers 500, leaves the
  store as it is and does not depend on the router at all.  When the secret is present,
  the response and the store are those of the router, also for a secret shorter than 32
  characters, which adds a warning and nothing else.
\<close>

theorem fetch_needs_secret:
  "(\<not> truthy_str (JWT_SECRET e) \<longrightarrow>
      fetch h request e s =
        (\<lparr>status = 500,
          payload = TextBody ''Server configuration error: JWT_SECRET is not set''\<rparr>, s, []) \<and>
      fetch h request e s = fetch h' request e s) \<and>
   (truthy_str (JWT_SECRET e) \<longrightarrow>
      fst (fetch h request e s) = fst (h request e s) \<and>
      fst (snd (fetch h request e s)) = snd (h request e s) \<and>
      (snd (snd (fetch h request e s)) \<noteq> [] \<longleftrightarrow> length (the (JWT_SECRET e)) < 32))"
  by (auto simp: fetch_def Let_def split: prod.splits)

text \<open>No secret, an empty secret and a short secret, in front of a router that answers 200.\<close>

theorem fetch_needs_secret_witness:
  "\<not> truthy_str (JWT_SECRET \<lparr>JWT_SECRET = None\<rparr>) \<and>
   \<not> truthy_str (JWT_SECRET \<lparr>JWT_SECRET = Some ''''\<rparr>) \<and>
   truthy_str (JWT_SECRET \<lparr>JWT_SECRET = Some ''short''\<rparr>) \<and>
   status (fst (fetch (\<lambda>r e s. (\<lparr>status = 200, payload = NoBody\<rparr>, s)) () \<lparr>JWT_SECRET = None\<rparr>
                  empty_store)) = 500 \<and>
   status (fst (fetch (\<lambda>r e s. (\<lparr>status = 200, payload = NoBody\<rparr>, s)) () \<lparr>JWT_SECRET = Some ''''\<rparr>
                  empty_store)) = 500 \<and>
   status (fst (fetch (\<lambda>r e s. (\<lparr>status = 200, payload = NoBody\<rparr>, s)) ()
                  \<lparr>JWT_SECRET = Some ''short''\<rparr> empty_store)) = 200"
proof -
  let ?h = "\<lambda>(r::unit) (e::env) (s::kvstore). (\<lparr>status = 200, payload = NoBody\<rparr>, s)"
  have a: "\<not> truthy_str (JWT_SECRET \<lparr>JWT_SECRET = None\<rparr>)"
    and b: "\<not> truthy_str (JWT_SECRET \<lparr>JWT_SECRET = Some ''''\<rparr>)"
    and c: "truthy_str (JWT_SECRET \<lparr>JWT_SECRET = Some ''short''\<rparr>)"
    by (simp_all add: truthy_str_def)
  from fetch_needs_secret [of "\<lparr>JWT_SECRET = None\<rparr>" ?h "()" empty_store ?h] a
  have 1: "status (fst (fetch ?h () \<lparr>JWT_SECRET = None\<rparr> empty_store)) = 500" by simp
  from fetch_needs_secret [of "\<lparr>JWT_SECRET = Some ''''\<rparr>" ?h "()" empty_store ?h] b
  have 2: "status (fst (fetch ?h () \<lparr>JWT_SECRET = Some ''''\<rparr> empty_store)) = 500" by simp
  from fetch_needs_secret [of "\<lparr>JWT_SECRET = Some ''short''\<rparr>" ?h "()" empty_store ?h] c
  have 3: "status (fst (fetch ?h () \<lparr>JWT_SECRET = Some ''short''\<rparr> empty_store)) = 200" by simp
  from a b c 1 2 3 show ?thesis by blast
qed

section \<open>Registration\<close>

lemma kv_deleteCipher:
  "kv (deleteCipher s now cid uid) k =
     (if k = CIPHERS_INDEX_key uid
      then Some (VIds (filter (\<lambda>x. x \<noteq> cid) (getCipherIds s now uid)), None)
      else if k = CIPHER_key cid then None
      else kv s k)"
  by (auto simp: deleteCipher_def Let_def getCipherIds_def key_defs)

lemma loop_kv_frame:
  "(\<And>cid. k \<noteq> CIPHER_key cid) \<Longrightarrow> (\<And>u. k \<noteq> CIPHERS_INDEX_key u) \<Longrightarrow>
   kv (bulkMoveCiphers_loop s now ids folderId uid) k = kv s k"
  by (induction ids arbitrary: s) (auto simp: kv_saveCipher split: option.splits)

lemma foldl_deleteAttachment_frame:
  "(\<And>a. k \<noteq> ATTACHMENT_key a) \<Longrightarrow> kv (foldl deleteAttachment s ids) k = kv s k"
  by (induction ids arbitrary: s) (auto simp: deleteAttachment_def)

lemma exec_keeps_config:
  "c \<noteq> SetRegistered \<Longrightarrow> kv (exec s (now, c)) CONFIG_REGISTERED = kv s CONFIG_REGISTERED"
proof (cases c)
  case (BulkMoveCiphers ids folderId uid)
  then show ?thesis
    by (simp add: bulkMoveCiphers_def updateRevisionDate_def loop_kv_frame key_defs)
next
  case (DeleteAllAttachmentsByCipher cid)
  then show ?thesis
    by (simp add: deleteAllAttachmentsByCipher_def foldl_deleteAttachment_frame key_defs)
next
  case (CheckLoginAttempt email)
  then show ?thesis
    by (simp add: checkLoginAttempt_store key_defs)
next
  case (RecordFailedLogin email)
  then show ?thesis
    by (simp add: recordFailedLogin_def Let_def key_defs)
next
  case (UpdateCipherRevisionDate cid)
  then show ?thesis
    by (simp add: updateCipherRevisionDate_def updateRevisionDate_def kv_saveCipher key_defs
        split: option.splits)
qed (simp_all add: saveUser_def kv_saveCipher kv_deleteCipher kv_saveFolder kv_deleteFolder
      saveRefreshToken_def deleteRefreshToken_def updateRevisionDate_def saveAttachment_def
      deleteAttachment_def addAttachmentToCipher_def removeAttachmentFromCipher_def
      clearLoginAttempts_def incrementApiCount_def Let_def key_defs)

lemma exec_registered:
  "registered_for_good s \<Longrightarrow> registered_for_good (exec s (now, c))"
proof (cases "c = SetRegistered")
  case True
  then show ?thesis by (simp add: registered_for_good_def setRegistered_def)
next
  case False
  assume "registered_for_good s"
  with exec_keeps_config [OF False, of s now] show ?thesis
    by (simp add: registered_for_good_def)
qed

lemma run_registered:
  "registered_for_good s \<Longrightarrow> registered_for_good (foldl exec s calls)"
proof (induction calls arbitrary: s)
  case Nil
  then show ?case by simp
next
  case (Cons nc calls)
  obtain now c where nc: "nc = (now, c)" by (cases nc)
  from Cons.prems have "registered_for_good (exec s (now, c))" by (rule exec_registered)
  from Cons.IH [OF this] nc show ?case by simp
qed

lemma registered_for_good_isRegistered: "registered_for_good s \<Longrightarrow> isRegistered s t"
  by (simp add: registered_for_good_def isRegistered_def kv_get_def)

lemma setRegistered_for_good: "registered_for_good (setRegistered s)"
  by (simp add: registered_for_good_def setRegistered_def)

lemma handleRegister_success:
  "status (fst (handleRegister s now uuid1 uuid2 body)) = 200 \<Longrightarrow>
   registered_for_good (snd (handleRegister s now uuid1 uuid2 body))"
  by (auto simp: handleRegister_def Let_def response_defs setRegistered_for_good
      split: option.splits if_splits)

text \<open>
  Claim C9.  When the registered flag is set, \<^verbatim>\<open>handleRegister\<close> answers with status 403
  and the message that registration is closed, and returns the store as it was, without
  a write.  After \<^verbatim>\<open>setRegistered\<close>, and so after a registration that succeeded, the flag
  reads as set at every clock value after every sequence of writing calls of the two
  services.
\<close>

theorem registration_one_shot:
  "(isRegistered s now \<longrightarrow>
      handleRegister s now uuid1 uuid2 body = (errorResponse ''Registration is closed'' 403, s) \<and>
      status (fst (handleRegister s now uuid1 uuid2 body)) = 403 \<and>
      payload (fst (handleRegister s now uuid1 uuid2 body)) = ErrorBody ''Registration is closed'' \<and>
      snd (handleRegister s now uuid1 uuid2 body) = s) \<and>
   isRegistered (foldl exec (setRegistered s) calls) t \<and>
   (status (fst (handleRegister s now uuid1 uuid2 body)) = 200 \<longrightarrow>
      isRegistered (foldl exec (snd (handleRegister s now uuid1 uuid2 body)) calls) t)"
proof (intro conjI impI)
  assume r: "isRegistered s now"
  then show "handleRegister s now uuid1 uuid2 body =
      (errorResponse ''Registration is closed'' 403, s)"
    by (simp add: handleRegister_def)
  from r show "status (fst (handleRegister s now uuid1 uuid2 body)) = 403"
    by (simp add: handleRegister_def response_defs)
  from r show "payload (fst (handleRegister s now uuid1 uuid2 body)) =
      ErrorBody ''Registration is closed''"
    by (simp add: handleRegister_def response_defs)
  from r show "snd (handleRegister s now uuid1 uuid2 body) = s"
    by (simp add: handleRegister_def)
next
  show "isRegistered (foldl exec (setRegistered s) calls) t"
    by (intro registered_for_good_isRegistered run_registered setRegistered_for_good)
next
  assume "status (fst (handleRegister s now uuid1 uuid2 body)) = 200"
  then show "isRegistered (foldl exec (snd (handleRegister s now uuid1 uuid2 body)) calls) t"
    by (intro registered_for_good_isRegistered run_registered handleRegister_success)
qed

text \<open>
  A second registration is refused with status 403 and the store is left as it was; a
  first one succeeds and the flag outlives a failed login and the deletion of a cipher.
\<close>

theorem registration_one_shot_witness:
  "isRegistered (setRegistered empty_store) 5 \<and>
   status (fst (handleRegister (setRegistered empty_store) 5 ''u2'' ''s2'' None)) = 403 \<and>
   snd (handleRegister (setRegistered empty_store) 5 ''u2'' ''s2'' None) =
     setRegistered empty_store \<and>
   status (fst (handleRegister empty_store 0 ''u1'' ''s1''
     (Some \<lparr>rb_email = Some ''A@example.com'', rb_name = None,
            rb_masterPasswordHash = Some ''hash'', rb_masterPasswordHint = None,
            rb_key = Some ''2.key'', rb_kdf = None, rb_kdfIterations = None,
            rb_kdfMemory = None, rb_kdfParallelism = None,
            rb_keys = Some \<lparr>rk_publicKey = Some ''public'',
                             rk_encryptedPrivateKey = Some ''2.private''\<rparr>\<rparr>))) = 200 \<and>
   isRegistered (foldl exec (snd (handleRegister empty_store 0 ''u1'' ''s1''
     (Some \<lparr>rb_email = Some ''A@example.com'', rb_name = None,
            rb_masterPasswordHash = Some ''hash'', rb_masterPasswordHint = None,
            rb_key = Some ''2.key'', rb_kdf = None, rb_kdfIterations = None,
            rb_kdfMemory = None, rb_kdfParallelism = None,
            rb_keys = Some \<lparr>rk_publicKey = Some ''public'',
                             rk_encryptedPrivateKey = Some ''2.private''\<rparr>\<rparr>)))
     [(1, RecordFailedLogin ''a@example.com''), (2, DeleteCipher ''c1'' ''u1'')]) 3"
proof -
  define body where "body = Some \<lparr>rb_email = Some ''A@example.com'', rb_name = None,
            rb_masterPasswordHash = Some ''hash'', rb_masterPasswordHint = None,
            rb_key = Some ''2.key'', rb_kdf = None, rb_kdfIterations = None,
            rb_kdfMemory = None, rb_kdfParallelism = None,
            rb_keys = Some \<lparr>rk_publicKey = Some ''public'',
                             rk_encryptedPrivateKey = Some ''2.private''\<rparr>\<rparr>"
  define calls where
    "calls = [(1::nat, RecordFailedLogin ''a@example.com''), (2, DeleteCipher ''c1'' ''u1'')]"
  have r: "isRegistered (setRegistered empty_store) 5"
    by (simp add: isRegistered_def setRegistered_def)
  have ok: "status (fst (handleRegister empty_store 0 ''u1'' ''s1'' body)) = 200"
    by (simp add: body_def handleRegister_def isRegistered_def kv_get_absent empty_store_absent
        truthy_str_def toLowerCase_def Let_def response_defs)
  from registration_one_shot [of "setRegistered empty_store" 5 "''u2''" "''s2''" None] r
  have a: "status (fst (handleRegister (setRegistered empty_store) 5 ''u2'' ''s2'' None)) = 403 \<and>
           snd (handleRegister (setRegistered empty_store) 5 ''u2'' ''s2'' None) =
             setRegistered empty_store"
    by blast
  from registration_one_shot [of empty_store 0 "''u1''" "''s1''" body calls 3] ok
  have b: "isRegistered (foldl exec (snd (handleRegister empty_store 0 ''u1'' ''s1'' body)) calls) 3"
    by blast
  from r a ok b show ?thesis unfolding body_def calls_def by blast
qed

text \<open>
  Every store that the writing calls of the two services build from the empty store keeps
  each cipher under the key of its own id.
\<close>

lemma cipher_keys_ok_frame:
  assumes "cipher_keys_ok s"
    and "\<And>cid. kv s' (CIPHER_key cid) = kv s (CIPHER_key cid) \<or> kv s' (CIPHER_key cid) = None"
  shows "cipher_keys_ok s'"
  unfolding cipher_keys_ok_def
proof (intro allI impI)
  fix cid c e assume a: "kv s' (CIPHER_key cid) = Some (VCipher c, e)"
  with assms(2) [of cid] have "kv s (CIPHER_key cid) = Some (VCipher c, e)" by auto
  with assms(1) show "cipher_id c = cid" by (auto simp: cipher_keys_ok_def)
qed

lemma cipher_keys_ok_exec:
  assumes "cipher_keys_ok s"
  shows "cipher_keys_ok (exec s (now, c))"
proof (cases c)
  case (SaveCipher x)
  with assms show ?thesis by (simp add: cipher_keys_ok_saveCipher)
next
  case (BulkMoveCiphers ids folderId uid)
  have "cipher_keys_ok (bulkMoveCiphers_loop s now ids folderId uid)"
    using assms by (rule loop_keys_ok)
  then have "cipher_keys_ok (bulkMoveCiphers s now ids folderId uid)"
    by (rule cipher_keys_ok_frame) (simp add: bulkMoveCiphers_def updateRevisionDate_def key_defs)
  with BulkMoveCiphers show ?thesis by simp
next
  case (UpdateCipherRevisionDate cid)
  show ?thesis
  proof (cases "getCipher s now cid")
    case None
    with assms UpdateCipherRevisionDate show ?thesis by (simp add: updateCipherRevisionDate_def)
  next
    case (Some x)
    have "cipher_keys_ok (saveCipher s now (x\<lparr>cipher_updatedAt := now\<rparr>))"
      using assms by (rule cipher_keys_ok_saveCipher)
    then have "cipher_keys_ok (snd (updateRevisionDate (saveCipher s now (x\<lparr>cipher_updatedAt := now\<rparr>))
        now (cipher_userId x)))"
      by (rule cipher_keys_ok_frame) (simp add: updateRevisionDate_def key_defs)
    with Some UpdateCipherRevisionDate show ?thesis by (simp add: updateCipherRevisionDate_def)
  qed
next
  case (DeleteAllAttachmentsByCipher cid)
  have "cipher_keys_ok (deleteAllAttachmentsByCipher s now cid)"
    using assms
    by (rule cipher_keys_ok_frame)
       (simp add: deleteAllAttachmentsByCipher_def foldl_deleteAttachment_frame key_defs)
  with DeleteAllAttachmentsByCipher show ?thesis by simp
next
  case (CheckLoginAttempt email)
  have "cipher_keys_ok (snd (checkLoginAttempt s now email))"
    using assms by (rule cipher_keys_ok_frame) (simp add: checkLoginAttempt_store key_defs)
  with CheckLoginAttempt show ?thesis by simp
next
  case (RecordFailedLogin email)
  have "cipher_keys_ok (snd (recordFailedLogin s now email))"
    using assms by (rule cipher_keys_ok_frame) (simp add: recordFailedLogin_def Let_def key_defs)
  with RecordFailedLogin show ?thesis by simp
qed (insert assms, (rule cipher_keys_ok_frame, assumption,
      simp add: setRegistered_def saveUser_def kv_deleteCipher kv_saveFolder kv_deleteFolder
      saveRefreshToken_def deleteRefreshToken_def updateRevisionDate_def saveAttachment_def
      deleteAttachment_def addAttachmentToCipher_def removeAttachmentFromCipher_def
      clearLoginAttempts_def incrementApiCount_def Let_def key_defs)+)

lemma cipher_keys_ok_run: "cipher_keys_ok (foldl exec empty_store calls)"
proof -
  have "cipher_keys_ok s \<Longrightarrow> cipher_keys_ok (foldl exec s calls)" for s
  proof (induction calls arbitrary: s)
    case Nil
    then show ?case by simp
  next
    case (Cons nc calls)
    obtain now c where nc: "nc = (now, c)" by (cases nc)
    from Cons.prems have "cipher_keys_ok (exec s (now, c))" by (rule cipher_keys_ok_exec)
    from Cons.IH [OF this] nc show ?case by simp
  qed
  from this [OF cipher_keys_ok_empty] show ?thesis .
qed

section \<open>API rate limit\<close>

lemma string_of_nat_digits: "c \<in> set (string_of_nat n) \<Longrightarrow> 48 \<le> (of_char c :: nat) \<and> (of_char c :: nat) < 58"
proof (induction n rule: string_of_nat.induct)
  case (1 n)
  show ?case
  proof (cases "n < 10")
    case True
    with "1.prems" show ?thesis by (simp add: string_of_nat.simps [of n])
  next
    case False
    with "1.prems" have "c \<in> set (string_of_nat (n div 10)) \<or> c = char_of (48 + n mod 10)"
      by (auto simp: string_of_nat.simps [of n])
    then show ?thesis
    proof
      assume "c \<in> set (string_of_nat (n div 10))"
      with "1.IH" False show ?thesis by simp
    next
      assume "c = char_of (48 + n mod 10)"
      moreover have "n mod 10 < 10" by simp
      ultimately show ?thesis by simp
    qed
  qed
qed

lemma colon_not_digit: "CHR '':'' \<notin> set (string_of_nat n)"
proof
  assume "CHR '':'' \<in> set (string_of_nat n)"
  from string_of_nat_digits [OF this] show False by simp
qed

lemma string_of_nat_nonempty: "string_of_nat n \<noteq> []"
  by (subst string_of_nat.simps) simp

lemma string_of_nat_inj: "string_of_nat n = string_of_nat m \<Longrightarrow> n = m"
proof (induction n arbitrary: m rule: string_of_nat.induct)
  case (1 n)
  show ?case
  proof (cases "n < 10")
    case n: True
    show ?thesis
    proof (cases "m < 10")
      case True
      from "1.prems" n True have "char_of (48 + n) = (char_of (48 + m) :: char)"
        by (simp add: string_of_nat.simps [of n] string_of_nat.simps [of m])
      then have "(of_char (char_of (48 + n) :: char) :: nat) = of_char (char_of (48 + m) :: char)"
        by simp
      with n True show ?thesis by simp
    next
      case False
      with "1.prems" n have "[char_of (48 + n)] = string_of_nat (m div 10) @ [char_of (48 + m mod 10)]"
        by (simp add: string_of_nat.simps [of n] string_of_nat.simps [of m])
      then have "string_of_nat (m div 10) = []" by simp
      with string_of_nat_nonempty show ?thesis by blast
    qed
  next
    case n: False
    show ?thesis
    proof (cases "m < 10")
      case True
      with "1.prems" n have "string_of_nat (n div 10) @ [char_of (48 + n mod 10)] = [char_of (48 + m)]"
        by (simp add: string_of_nat.simps [of n] string_of_nat.simps [of m])
      then have "string_of_nat (n div 10) = []" by simp
      with string_of_nat_nonempty show ?thesis by blast
    next
      case False
      with "1.prems" n have e: "string_of_nat (n div 10) = string_of_nat (m div 10)"
        and d: "char_of (48 + n mod 10) = (char_of (48 + m mod 10) :: char)"
        by (simp_all add: string_of_nat.simps [of n] string_of_nat.simps [of m])
      from "1.IH" [OF n e] have q: "n div 10 = m div 10" .
      from d have "(of_char (char_of (48 + n mod 10) :: char) :: nat) =
                   of_char (char_of (48 + m mod 10) :: char)" by simp
      moreover have "n mod 10 < 10" "m mod 10 < 10" by simp_all
      ultimately have r: "n mod 10 = m mod 10" by simp
      from q r show ?thesis by (metis div_mult_mod_eq)
    qed
  qed
qed

lemma append_sep_inj:
  "a @ c # x = b @ c # y \<Longrightarrow> c \<notin> set x \<Longrightarrow> c \<notin> set y \<Longrightarrow> a = b \<and> x = y"
proof (induction a arbitrary: b)
  case Nil
  then show ?case by (cases b) auto
next
  case (Cons h a)
  then show ?case by (cases b) auto
qed

lemma API_RATE_key_inj:
  "API_RATE_key i w = API_RATE_key j v \<longleftrightarrow> i = j \<and> w = v"
proof
  assume "API_RATE_key i w = API_RATE_key j v"
  then have "i @ CHR '':'' # string_of_nat w = j @ CHR '':'' # string_of_nat v"
    by (simp add: API_RATE_key_def)
  from append_sep_inj [OF this colon_not_digit colon_not_digit]
  show "i = j \<and> w = v" by (auto dest: string_of_nat_inj)
qed simp

lemma counter_is_cong:
  "kv s' (API_RATE_key i w) = kv s (API_RATE_key i w) \<Longrightarrow> counter_is s' i w k = counter_is s i w k"
  by (simp add: counter_is_def get_count_def kv_get_def)

lemma counter_is_absent: "kv s (API_RATE_key i w) = None \<Longrightarrow> counter_is s i w 0"
  by (simp add: counter_is_def get_count_def kv_get_absent)

lemma in_window_bounds: "in_window w t \<Longrightarrow> w * 1000 \<le> t \<and> t < w * 1000 + 60000"
proof -
  assume "in_window w t"
  then have w: "w = t div 1000 - (t div 1000) mod 60"
    by (simp add: in_window_def windowStart_def API_WINDOW_SECONDS_def)
  have "(t div 1000) mod 60 < 60" by simp
  with w have "w \<le> t div 1000" "t div 1000 < w + 60" by arith+
  then show ?thesis by arith
qed

lemma incrementApiCount_kv:
  "kv (incrementApiCount s t j) k =
     (if k = API_RATE_key j (windowStart (t div 1000))
      then Some (VCount (get_count s t (API_RATE_key j (windowStart (t div 1000))) + 1),
                 Some (t + 70000))
      else kv s k)"
  by (simp add: incrementApiCount_def Let_def API_WINDOW_SECONDS_def)

lemma incr_counter:
  assumes "counter_is s i w k" "in_window w t'"
  shows "counter_is (incrementApiCount s t' i) i w (Suc k)"
  unfolding counter_is_def
proof (intro allI impI)
  fix t assume t: "in_window w t"
  from assms(2) have ws: "windowStart (t' div 1000) = w" by (simp add: in_window_def)
  from assms have c: "get_count s t' (API_RATE_key i w) = k" by (simp add: counter_is_def)
  from t assms(2) have lt: "t < t' + 70000" by (auto dest!: in_window_bounds)
  have "kv (incrementApiCount s t' i) (API_RATE_key i w) =
          Some (VCount (Suc k), Some (t' + 70000))"
    by (simp add: incrementApiCount_kv ws c)
  with lt show "get_count (incrementApiCount s t' i) t (API_RATE_key i w) = Suc k"
    by (simp add: get_count_def kv_get_def)
qed

lemma incr_other:
  assumes "j \<noteq> i \<or> \<not> in_window w t'"
  shows "counter_is (incrementApiCount s t' j) i w k = counter_is s i w k"
proof (rule counter_is_cong)
  from assms have "API_RATE_key i w \<noteq> API_RATE_key j (windowStart (t' div 1000))"
    by (auto simp: API_RATE_key_inj in_window_def)
  then show "kv (incrementApiCount s t' j) (API_RATE_key i w) = kv s (API_RATE_key i w)"
    by (simp add: incrementApiCount_kv)
qed

lemma check_counter:
  assumes "counter_is s i w k" "in_window w t"
  shows "checkApiRateLimit s t i =
           (if 60 \<le> k
            then \<lparr>api_allowed = False, api_remaining = 0,
                  api_retryAfterSeconds = Some (60 - (t div 1000) mod 60)\<rparr>
            else \<lparr>api_allowed = True, api_remaining = 60 - k, api_retryAfterSeconds = None\<rparr>)"
proof -
  from assms(2) have ws: "windowStart (t div 1000) = w" by (simp add: in_window_def)
  from assms have c: "get_count s t (API_RATE_key i w) = k" by (simp add: counter_is_def)
  from ws c show ?thesis
    by (simp add: checkApiRateLimit_def Let_def API_REQUESTS_PER_MINUTE_def
        API_WINDOW_SECONDS_def)
qed

lemma api_key_other:
  "API_RATE_key i w \<noteq> CONFIG_REGISTERED"
  "API_RATE_key i w \<noteq> USER_key a"
  "API_RATE_key i w \<noteq> USERID_key a"
  "API_RATE_key i w \<noteq> CIPHER_key a"
  "API_RATE_key i w \<noteq> FOLDER_key a"
  "API_RATE_key i w \<noteq> ATTACHMENT_key a"
  "API_RATE_key i w \<noteq> CIPHERS_INDEX_key a"
  "API_RATE_key i w \<noteq> FOLDERS_INDEX_key a"
  "API_RATE_key i w \<noteq> ATTACHMENTS_INDEX_key a"
  "API_RATE_key i w \<noteq> REFRESH_TOKEN_key a"
  "API_RATE_key i w \<noteq> REVISION_DATE_key a"
  "API_RATE_key i w \<noteq> LOGIN_ATTEMPTS_key a"
  by (simp_all add: key_defs)

lemma exec_keeps_counter:
  assumes "\<And>j. c = IncrementApiCount j \<Longrightarrow> j \<noteq> i \<or> \<not> in_window w t"
  shows "kv (exec s (t, c)) (API_RATE_key i w) = kv s (API_RATE_key i w)"
proof (cases c)
  case (IncrementApiCount j)
  with assms have "j \<noteq> i \<or> \<not> in_window w t" by simp
  then have "API_RATE_key i w \<noteq> API_RATE_key j (windowStart (t div 1000))"
    by (auto simp: API_RATE_key_inj in_window_def)
  with IncrementApiCount show ?thesis by (simp add: incrementApiCount_kv)
next
  case (BulkMoveCiphers ids folderId uid)
  then show ?thesis
    by (simp add: bulkMoveCiphers_def updateRevisionDate_def loop_kv_frame api_key_other)
next
  case (DeleteAllAttachmentsByCipher cid)
  then show ?thesis
    by (simp add: deleteAllAttachmentsByCipher_def foldl_deleteAttachment_frame api_key_other)
next
  case (CheckLoginAttempt email)
  then show ?thesis
    by (simp add: checkLoginAttempt_store api_key_other)
next
  case (RecordFailedLogin email)
  then show ?thesis
    by (simp add: recordFailedLogin_def Let_def api_key_other)
next
  case (UpdateCipherRevisionDate cid)
  then show ?thesis
    by (simp add: updateCipherRevisionDate_def updateRevisionDate_def kv_saveCipher api_key_other
        split: option.splits)
qed (simp_all add: setRegistered_def saveUser_def kv_saveCipher kv_deleteCipher kv_saveFolder
      kv_deleteFolder saveRefreshToken_def deleteRefreshToken_def updateRevisionDate_def
      saveAttachment_def deleteAttachment_def addAttachmentToCipher_def
      removeAttachmentFromCipher_def clearLoginAttempts_def Let_def api_key_other)

lemma gate_request:
  assumes "counter_is s (u @ '':'' @ c) w k" "in_window w t" "in_window w t'"
  shows "fst (handleRequest_rateLimit s t t' u c) = None \<longleftrightarrow> k < 60"
    and "counter_is (snd (handleRequest_rateLimit s t t' u c)) (u @ '':'' @ c) w
           (if k < 60 then Suc k else k)"
  using assms check_counter [OF assms(1,2)] incr_counter [OF assms(1,3)]
  by (simp_all add: handleRequest_rateLimit_def Let_def)

lemma gate_other:
  assumes "u @ '':'' @ c \<noteq> i \<or> \<not> in_window w t'"
  shows "counter_is (snd (handleRequest_rateLimit s t t' u c)) i w k = counter_is s i w k"
  using incr_other [OF assms, where s = s and k = k]
  by (simp add: handleRequest_rateLimit_def Let_def)

lemma step_counter:
  assumes "counter_is s i w k" "within_window i w e"
  shows "counter_is (step s e) i w (if is_request i w e \<and> k < 60 then Suc k else k)"
proof (cases e)
  case (Request t t' u c)
  show ?thesis
  proof (cases "u @ '':'' @ c = i \<and> in_window w t")
    case True
    with assms(2) Request have t': "in_window w t'" by auto
    from True assms(1) have "counter_is s (u @ '':'' @ c) w k" by simp
    from gate_request(2) [OF this _ t', of t] True Request show ?thesis by auto
  next
    case False
    with assms(2) Request have "u @ '':'' @ c \<noteq> i \<or> \<not> in_window w t'" by auto
    from gate_other [OF this, where s = s and t = t and k = k] assms(1) False Request
    show ?thesis by auto
  qed
next
  case (Call t c)
  with assms(2) have "\<And>j. c = IncrementApiCount j \<Longrightarrow> j \<noteq> i \<or> \<not> in_window w t"
    by auto
  then have "kv (exec s (t, c)) (API_RATE_key i w) = kv s (API_RATE_key i w)"
    by (rule exec_keeps_counter)
  from counter_is_cong [OF this, where k = k] assms(1) Call
  show ?thesis by simp
qed

lemma served_from:
  assumes "counter_is s i w k" "k \<le> 60" "\<forall>e \<in> set es. within_window i w e"
  shows "served s es i w = map (\<lambda>n. k + n < 60) [0..<length (filter (is_request i w) es)] \<and>
         counter_is (foldl step s es) i w (min 60 (k + length (filter (is_request i w) es)))"
  using assms
proof (induction es arbitrary: s k)
  case Nil
  then show ?case by simp
next
  case (Cons e es)
  define k' where "k' = (if is_request i w e \<and> k < 60 then Suc k else k)"
  define m where "m = length (filter (is_request i w) es)"
  from Cons.prems have ww: "within_window i w e" and rest: "\<forall>e \<in> set es. within_window i w e"
    by simp_all
  from step_counter [OF Cons.prems(1) ww] have c': "counter_is (step s e) i w k'"
    by (simp add: k'_def)
  have k'60: "k' \<le> 60" using Cons.prems(2) by (simp add: k'_def)
  from Cons.IH [OF c' k'60 rest]
  have IH1: "served (step s e) es i w = map (\<lambda>n. k' + n < 60) [0..<m]"
    and IH2: "counter_is (foldl step (step s e) es) i w (min 60 (k' + m))"
    by (simp_all add: m_def)
  have head: "(case e of
        Request t t' userId clientId \<Rightarrow>
          if is_request i w e
          then [fst (handleRequest_rateLimit s t t' userId clientId) = None]
          else []
      | Call t c \<Rightarrow> []) = (if is_request i w e then [k < 60] else [])"
  proof (cases e)
    case (Request t t' u c)
    show ?thesis
    proof (cases "is_request i w e")
      case True
      with Request have id: "u @ '':'' @ c = i" and t: "in_window w t" by simp_all
      with ww Request have t': "in_window w t'" by auto
      from Cons.prems(1) id have "counter_is s (u @ '':'' @ c) w k" by simp
      from gate_request(1) [OF this t t'] True Request show ?thesis by simp
    next
      case False
      with Request show ?thesis by auto
    qed
  next
    case (Call t c)
    then show ?thesis by simp
  qed
  have len: "length (filter (is_request i w) (e # es)) = (if is_request i w e then Suc m else m)"
    by (simp add: m_def)
  have cnt: "min 60 (k' + m) = min 60 (k + (if is_request i w e then Suc m else m))"
    using Cons.prems(2) by (auto simp: k'_def)
  have shift: "map (\<lambda>n. k + n < 60) [0..<Suc m] = (k < 60) # map (\<lambda>n. Suc k + n < 60) [0..<m]"
    by (simp add: upt_rec [of 0 "Suc m"] map_Suc_upt [symmetric] del: upt_Suc)
  have srv: "(if is_request i w e then [k < 60] else []) @ map (\<lambda>n. k' + n < 60) [0..<m] =
             map (\<lambda>n. k + n < 60) [0..<(if is_request i w e then Suc m else m)]"
  proof (cases "is_request i w e")
    case False
    then show ?thesis by (simp add: k'_def)
  next
    case True
    show ?thesis
    proof (cases "k < 60")
      case k: True
      with True shift show ?thesis by (simp add: k'_def)
    next
      case k: False
      then have "map (\<lambda>n. Suc k + n < 60) [0..<m] = map (\<lambda>n. k + n < 60) [0..<m]" by simp
      with k True shift show ?thesis by (simp add: k'_def)
    qed
  qed
  have "served s (e # es) i w = map (\<lambda>n. k + n < 60) [0..<length (filter (is_request i w) (e # es))]"
    unfolding len srv [symmetric] using head IH1 by simp
  moreover have "counter_is (foldl step s (e # es)) i w
      (min 60 (k + length (filter (is_request i w) (e # es))))"
    unfolding len cnt [symmetric] using IH2 by simp
  ultimately show ?case by blast
qed

lemma flags_60: "map (\<lambda>n. k + n < 60) [0..<m] = replicate (min m (60 - k)) True @ replicate (m - (60 - k)) False"
proof (rule nth_equalityI)
  show "length (map (\<lambda>n. k + n < 60) [0..<m]) =
        length (replicate (min m (60 - k)) True @ replicate (m - (60 - k)) False)"
    by simp
next
  fix j assume "j < length (map (\<lambda>n. k + n < 60) [0..<m])"
  then have "j < m" by simp
  then show "map (\<lambda>n. k + n < 60) [0..<m] ! j =
             (replicate (min m (60 - k)) True @ replicate (m - (60 - k)) False) ! j"
    by (auto simp: nth_append)
qed

text \<open>
  Claim C3, as amended.  Start from the empty store and let any events happen: requests
  of any identities in any windows and writing calls of the services, such that no request
  of the identity straddles a border of the window (check and increment of each of its
  requests read clock values of the same window).  Then of the requests of the identity
  in the window the first 60 are let through and every later one is turned away.  As
  long as fewer than 60 of them have come, a further request in the window is let
  through; once 60 have come, a further request in the window is rejected by
  \<^verbatim>\<open>checkApiRateLimit\<close>, and answered with status 429 without a write, with
  \<open>retryAfterSeconds = 60 - (now mod 60)\<close>, which is positive and at most 60.
\<close>

theorem api_rate_limit_61st:
  assumes "\<forall>e \<in> set es. within_window (userId @ '':'' @ clientId) w e"
  shows
    "served empty_store es (userId @ '':'' @ clientId) w =
       map (\<lambda>n. n < 60) [0..<length (filter (is_request (userId @ '':'' @ clientId) w) es)] \<and>
     (in_window w now \<and> length (filter (is_request (userId @ '':'' @ clientId) w) es) < 60 \<longrightarrow>
        fst (handleRequest_rateLimit (foldl step empty_store es) now now' userId clientId) = None) \<and>
     (in_window w now \<and> 60 \<le> length (filter (is_request (userId @ '':'' @ clientId) w) es) \<longrightarrow>
        (let s' = foldl step empty_store es;
             retry = 60 - (now div 1000) mod 60
         in checkApiRateLimit s' now (userId @ '':'' @ clientId) =
              \<lparr>api_allowed = False, api_remaining = 0, api_retryAfterSeconds = Some retry\<rparr> \<and>
            handleRequest_rateLimit s' now now' userId clientId =
              (Some \<lparr>status = 429, payload = RateLimitBody retry\<rparr>, s') \<and>
            0 < retry \<and> retry \<le> 60))"
proof -
  let ?i = "userId @ '':'' @ clientId"
  let ?m = "length (filter (is_request ?i w) es)"
  have c0: "counter_is empty_store ?i w 0"
    by (rule counter_is_absent) (rule empty_store_absent)
  from served_from [OF c0 _ assms]
  have srv: "served empty_store es ?i w = map (\<lambda>n. n < 60) [0..<?m]"
    and cnt: "counter_is (foldl step empty_store es) ?i w (min 60 ?m)"
    by simp_all
  have a: "in_window w now \<and> ?m < 60 \<longrightarrow>
        fst (handleRequest_rateLimit (foldl step empty_store es) now now' userId clientId) = None"
  proof
    assume h: "in_window w now \<and> ?m < 60"
    with check_counter [OF cnt, of now] show
      "fst (handleRequest_rateLimit (foldl step empty_store es) now now' userId clientId) = None"
      by (simp add: handleRequest_rateLimit_def Let_def)
  qed
  have b: "in_window w now \<and> 60 \<le> ?m \<longrightarrow>
        (let s' = foldl step empty_store es;
             retry = 60 - (now div 1000) mod 60
         in checkApiRateLimit s' now ?i =
              \<lparr>api_allowed = False, api_remaining = 0, api_retryAfterSeconds = Some retry\<rparr> \<and>
            handleRequest_rateLimit s' now now' userId clientId =
              (Some \<lparr>status = 429, payload = RateLimitBody retry\<rparr>, s') \<and>
            0 < retry \<and> retry \<le> 60)"
  proof
    assume h: "in_window w now \<and> 60 \<le> ?m"
    with check_counter [OF cnt, of now]
    have "checkApiRateLimit (foldl step empty_store es) now ?i =
              \<lparr>api_allowed = False, api_remaining = 0,
               api_retryAfterSeconds = Some (60 - (now div 1000) mod 60)\<rparr>"
      by simp
    then show "let s' = foldl step empty_store es;
             retry = 60 - (now div 1000) mod 60
         in checkApiRateLimit s' now ?i =
              \<lparr>api_allowed = False, api_remaining = 0, api_retryAfterSeconds = Some retry\<rparr> \<and>
            handleRequest_rateLimit s' now now' userId clientId =
              (Some \<lparr>status = 429, payload = RateLimitBody retry\<rparr>, s') \<and>
            0 < retry \<and> retry \<le> 60"
      by (simp add: handleRequest_rateLimit_def Let_def)
  qed
  from srv a b show ?thesis by blast
qed

text \<open>
  A call of a handler, a request of another identity and an earlier request of the
  identity, followed by 61 requests of the identity in the window that starts at second
  120: the first 60 pass, the 61st does not, and a check in the last millisecond of the
  window is rejected with one second to wait.  A first request in the window passes.
\<close>

theorem api_rate_limit_61st_witness:
  "served empty_store
     ([Call 0 (UpdateRevisionDate ''u1''), Request 125000 125001 ''u2'' ''10.0.0.2'',
       Request 59999 60000 ''u1'' ''10.0.0.1'']
      @ replicate 61 (Request 125000 125999 ''u1'' ''10.0.0.1''))
     (''u1'' @ '':'' @ ''10.0.0.1'') 120
   = replicate 60 True @ [False] \<and>
   checkApiRateLimit
     (foldl step empty_store
        ([Call 0 (UpdateRevisionDate ''u1''), Request 125000 125001 ''u2'' ''10.0.0.2'',
          Request 59999 60000 ''u1'' ''10.0.0.1'']
         @ replicate 61 (Request 125000 125999 ''u1'' ''10.0.0.1'')))
     179999 (''u1'' @ '':'' @ ''10.0.0.1'')
   = \<lparr>api_allowed = False, api_remaining = 0, api_retryAfterSeconds = Some 1\<rparr> \<and>
   fst (handleRequest_rateLimit (foldl step empty_store [Call 0 (UpdateRevisionDate ''u1'')])
          125000 125001 ''u1'' ''10.0.0.1'') = None"
proof -
  define e where "e = Request 125000 125999 ''u1'' ''10.0.0.1''"
  define pre where "pre = [Call 0 (UpdateRevisionDate ''u1''),
       Request 125000 125001 ''u2'' ''10.0.0.2'', Request 59999 60000 ''u1'' ''10.0.0.1'']"
  define es where "es = pre @ replicate 61 e"
  have w: "in_window 120 125000" "in_window 120 125999" "in_window 120 125001"
    "\<not> in_window 120 59999" "\<not> in_window 120 60000" "in_window 120 179999"
    by (simp_all add: in_window_def windowStart_def API_WINDOW_SECONDS_def)
  have r: "is_request (''u1'' @ '':'' @ ''10.0.0.1'') 120 e"
    "within_window (''u1'' @ '':'' @ ''10.0.0.1'') 120 e"
    using w by (simp_all add: e_def)
  have p: "\<forall>x \<in> set pre. within_window (''u1'' @ '':'' @ ''10.0.0.1'') 120 x"
    "filter (is_request (''u1'' @ '':'' @ ''10.0.0.1'') 120) pre = []"
    using w by (simp_all add: pre_def)
  have h: "\<forall>x \<in> set es. within_window (''u1'' @ '':'' @ ''10.0.0.1'') 120 x"
    using p(1) r(2) by (auto simp: es_def)
  have h1: "\<forall>x \<in> set [Call 0 (UpdateRevisionDate ''u1'')].
      within_window (''u1'' @ '':'' @ ''10.0.0.1'') 120 x"
    by simp
  have len: "length (filter (is_request (''u1'' @ '':'' @ ''10.0.0.1'') 120) es) = 61"
    using p(2) r(1) by (simp add: es_def)
  have fl: "map (\<lambda>n. n < 60) [0..<61] = replicate 60 True @ [False]"
    using flags_60 [of 0 61] by (simp del: replicate_Suc) (simp add: numeral_eq_Suc)
  have ret: "60 - (179999 div 1000) mod 60 = (1::nat)" by simp
  note A = api_rate_limit_61st [OF h, where now = 179999 and now' = 179999]
  from A len fl have a: "served empty_store es (''u1'' @ '':'' @ ''10.0.0.1'') 120 =
      replicate 60 True @ [False]"
    by simp
  from A len w(6) ret have b: "checkApiRateLimit (foldl step empty_store es) 179999
      (''u1'' @ '':'' @ ''10.0.0.1'') =
      \<lparr>api_allowed = False, api_remaining = 0, api_retryAfterSeconds = Some 1\<rparr>"
    by (simp add: Let_def)
  from api_rate_limit_61st [OF h1, where now = 125000 and now' = 125001] w(1)
  have c: "fst (handleRequest_rateLimit (foldl step empty_store [Call 0 (UpdateRevisionDate ''u1'')])
          125000 125001 ''u1'' ''10.0.0.1'') = None"
    by simp
  from a b c show ?thesis unfolding es_def pre_def e_def by blast
qed

lemma straddling_request:
  "counter_is (step empty_store (Request 59999 60000 u c)) (u @ '':'' @ c) 60 1"
proof -
  have c0: "counter_is empty_store (u @ '':'' @ c) 0 0"
    by (rule counter_is_absent) (rule empty_store_absent)
  have w0: "in_window 0 59999"
    by (simp add: in_window_def windowStart_def API_WINDOW_SECONDS_def)
  have al: "api_allowed (checkApiRateLimit empty_store 59999 (u @ '':'' @ c))"
    using check_counter [OF c0 w0] by simp
  have c60: "counter_is empty_store (u @ '':'' @ c) 60 0"
    by (rule counter_is_absent) (rule empty_store_absent)
  have w60: "in_window 60 60000"
    by (simp add: in_window_def windowStart_def API_WINDOW_SECONDS_def)
  from incr_counter [OF c60 w60] al show ?thesis
    by (simp add: handleRequest_rateLimit_def Let_def)
qed

text \<open>
  Claim C3 as stated fails.  A request of the identity is checked in the last millisecond
  of the window that starts at second 0 and is counted, one millisecond later, in the
  window that starts at second 60.  Of the first 60 requests that then come in the window
  that starts at second 60, the first 59 are let through and the 60th is turned away.
\<close>

theorem straddling_request_counterexample:
  "served empty_store
     (Request 59999 60000 ''u1'' ''10.0.0.1'' # replicate 60 (Request 60001 60002 ''u1'' ''10.0.0.1''))
     (''u1'' @ '':'' @ ''10.0.0.1'') 60
   = replicate 59 True @ [False]"
proof -
  define e0 where "e0 = Request 59999 60000 ''u1'' ''10.0.0.1''"
  define e where "e = Request 60001 60002 ''u1'' ''10.0.0.1''"
  define i where "i = ''u1'' @ '':'' @ ''10.0.0.1''"
  have w: "in_window 60 60001" "in_window 60 60002" "\<not> in_window 60 59999"
    by (simp_all add: in_window_def windowStart_def API_WINDOW_SECONDS_def)
  have c1: "counter_is (step empty_store e0) i 60 1"
    unfolding e0_def i_def by (rule straddling_request)
  have r: "is_request i 60 e" "within_window i 60 e" "\<not> is_request i 60 e0"
    using w by (simp_all add: e_def e0_def i_def)
  have ww: "\<forall>x \<in> set (replicate 60 e). within_window i 60 x" using r by simp
  from served_from [OF c1 _ ww] r
  have "served (step empty_store e0) (replicate 60 e) i 60 = map (\<lambda>n. 1 + n < 60) [0..<60]"
    by simp
  also have "\<dots> = replicate 59 True @ [False]"
    by (simp add: flags_60 del: replicate_Suc) (simp add: numeral_eq_Suc)
  finally have "served empty_store (e0 # replicate 60 e) i 60 = replicate 59 True @ [False]"
    using r(3) by (simp add: e0_def)
  then show ?thesis unfolding e0_def e_def i_def .
qed

section \<open>Reading all ciphers and folders of a user: the returned records\<close>

lemma folder_keys_ok_getFolder:
  "folder_keys_ok s \<Longrightarrow> getFolder s t fid = Some f \<Longrightarrow> folder_id f = fid"
  by (auto simp: folder_keys_ok_def getFolder_def kv_get_def
      split: option.splits kvval.splits if_splits)

lemma folder_keys_ok_empty: "folder_keys_ok empty_store"
  by (simp add: folder_keys_ok_def empty_store_def)

lemma folder_keys_ok_saveFolder:
  "folder_keys_ok s \<Longrightarrow> folder_keys_ok (saveFolder s now f)"
  by (auto simp: folder_keys_ok_def kv_saveFolder key_defs)

lemma folder_keys_ok_frame:
  assumes "folder_keys_ok s"
    and "\<And>fid. kv s' (FOLDER_key fid) = kv s (FOLDER_key fid) \<or> kv s' (FOLDER_key fid) = None"
  shows "folder_keys_ok s'"
  unfolding folder_keys_ok_def
proof (intro allI impI)
  fix fid f e assume a: "kv s' (FOLDER_key fid) = Some (VFolder f, e)"
  with assms(2) [of fid] have "kv s (FOLDER_key fid) = Some (VFolder f, e)" by auto
  with assms(1) show "folder_id f = fid" by (auto simp: folder_keys_ok_def)
qed

lemma folder_keys_ok_exec:
  assumes "folder_keys_ok s"
  shows "folder_keys_ok (exec s (now, c))"
proof (cases c)
  case (SaveFolder x)
  with assms show ?thesis by (simp add: folder_keys_ok_saveFolder)
next
  case (BulkMoveCiphers ids folderId uid)
  have "folder_keys_ok (bulkMoveCiphers s now ids folderId uid)"
    using assms
    by (rule folder_keys_ok_frame)
       (simp add: bulkMoveCiphers_def updateRevisionDate_def loop_kv_frame key_defs)
  with BulkMoveCiphers show ?thesis by simp
next
  case (UpdateCipherRevisionDate cid)
  have "folder_keys_ok (updateCipherRevisionDate s now cid)"
    using assms
    by (rule folder_keys_ok_frame)
       (simp add: updateCipherRevisionDate_def updateRevisionDate_def kv_saveCipher key_defs
         split: option.splits)
  with UpdateCipherRevisionDate show ?thesis by simp
next
  case (DeleteAllAttachmentsByCipher cid)
  have "folder_keys_ok (deleteAllAttachmentsByCipher s now cid)"
    using assms
    by (rule folder_keys_ok_frame)
       (simp add: deleteAllAttachmentsByCipher_def foldl_deleteAttachment_frame key_defs)
  with DeleteAllAttachmentsByCipher show ?thesis by simp
next
  case (CheckLoginAttempt email)
  have "folder_keys_ok (snd (checkLoginAttempt s now email))"
    using assms by (rule folder_keys_ok_frame) (simp add: checkLoginAttempt_store key_defs)
  with CheckLoginAttempt show ?thesis by simp
next
  case (RecordFailedLogin email)
  have "folder_keys_ok (snd (recordFailedLogin s now email))"
    using assms by (rule folder_keys_ok_frame) (simp add: recordFailedLogin_def Let_def key_defs)
  with RecordFailedLogin show ?thesis by simp
qed (insert assms, (rule folder_keys_ok_frame, assumption,
      simp add: setRegistered_def saveUser_def kv_saveCipher kv_deleteCipher kv_deleteFolder
      saveRefreshToken_def deleteRefreshToken_def updateRevisionDate_def saveAttachment_def
      deleteAttachment_def addAttachmentToCipher_def removeAttachmentFromCipher_def
      clearLoginAttempts_def incrementApiCount_def Let_def key_defs)+)

lemma folder_keys_ok_run: "folder_keys_ok (foldl exec empty_store calls)"
proof -
  have "folder_keys_ok s \<Longrightarrow> folder_keys_ok (foldl exec s calls)" for s
  proof (induction calls arbitrary: s)
    case Nil
    then show ?case by simp
  next
    case (Cons nc calls)
    obtain now c where nc: "nc = (now, c)" by (cases nc)
    from Cons.prems have "folder_keys_ok (exec s (now, c))" by (rule folder_keys_ok_exec)
    from Cons.IH [OF this] nc show ?case by simp
  qed
  from this [OF folder_keys_ok_empty] show ?thesis .
qed

lemma map_id_map_filter:
  assumes "\<And>x y. x \<in> set xs \<Longrightarrow> f x = Some y \<Longrightarrow> g y = x"
  shows "map g (List.map_filter f xs) = filter (\<lambda>x. f x \<noteq> None) xs"
  using assms by (induction xs) (auto simp: List.map_filter_simps split: option.splits)

text \<open>
  Claim C4.  \<^verbatim>\<open>getAllCiphers\<close> returns, in the order of the index stored under
  \<^verbatim>\<open>index:ciphers:U\<close>, the records stored under the ids of that index, and drops the ids
  under which no record is stored; \<^verbatim>\<open>getAllFolders\<close> does the same with
  \<^verbatim>\<open>index:folders:U\<close> and the stored folders.  So a record is returned if and only if it
  is stored under an id of the index.  In a store where every record lies under the key
  of its own id, the ids of the returned records are the ids of the index that have a
  record: none is absent from the index, none that has a record is left out.  Both
  functions only read the store (they are functions of the store and return no new one),
  so the index stays as it is.
\<close>

theorem getAll_exact:
  "getAllCiphers s now uid =
     List.map_filter (stored_cipher s now) (stored_ids s now (CIPHERS_INDEX_key uid)) \<and>
   getAllFolders s now uid =
     List.map_filter (stored_folder s now) (stored_ids s now (FOLDERS_INDEX_key uid)) \<and>
   (c \<in> set (getAllCiphers s now uid) \<longleftrightarrow>
      (\<exists>cid \<in> set (stored_ids s now (CIPHERS_INDEX_key uid)). stored_cipher s now cid = Some c)) \<and>
   (f \<in> set (getAllFolders s now uid) \<longleftrightarrow>
      (\<exists>fid \<in> set (stored_ids s now (FOLDERS_INDEX_key uid)). stored_folder s now fid = Some f)) \<and>
   (cipher_keys_ok s \<longrightarrow>
      map cipher_id (getAllCiphers s now uid) =
        filter (\<lambda>cid. stored_cipher s now cid \<noteq> None) (stored_ids s now (CIPHERS_INDEX_key uid))) \<and>
   (folder_keys_ok s \<longrightarrow>
      map folder_id (getAllFolders s now uid) =
        filter (\<lambda>fid. stored_folder s now fid \<noteq> None) (stored_ids s now (FOLDERS_INDEX_key uid)))"
proof -
  have gc: "getCipher s now = stored_cipher s now" by (simp add: getCipher_def fun_eq_iff)
  have gf: "getFolder s now = stored_folder s now" by (simp add: getFolder_def fun_eq_iff)
  have ic: "getCipherIds s now uid = stored_ids s now (CIPHERS_INDEX_key uid)"
    by (simp add: getCipherIds_def)
  have "if": "getFolderIds s now uid = stored_ids s now (FOLDERS_INDEX_key uid)"
    by (simp add: getFolderIds_def)
  have a: "getAllCiphers s now uid =
     List.map_filter (stored_cipher s now) (stored_ids s now (CIPHERS_INDEX_key uid))"
    by (simp add: getAllCiphers_def getAllCiphers_loop_eq gc ic)
  have b: "getAllFolders s now uid =
     List.map_filter (stored_folder s now) (stored_ids s now (FOLDERS_INDEX_key uid))"
    by (simp add: getAllFolders_def getAllFolders_loop_eq gf "if")
  have i1: "cipher_keys_ok s \<longrightarrow>
      map cipher_id (getAllCiphers s now uid) =
        filter (\<lambda>cid. stored_cipher s now cid \<noteq> None) (stored_ids s now (CIPHERS_INDEX_key uid))"
  proof
    assume ok: "cipher_keys_ok s"
    show "map cipher_id (getAllCiphers s now uid) =
        filter (\<lambda>cid. stored_cipher s now cid \<noteq> None) (stored_ids s now (CIPHERS_INDEX_key uid))"
      unfolding a
      by (rule map_id_map_filter) (rule cipher_keys_ok_getCipher [OF ok, of now], simp add: gc)
  qed
  have i2: "folder_keys_ok s \<longrightarrow>
      map folder_id (getAllFolders s now uid) =
        filter (\<lambda>fid. stored_folder s now fid \<noteq> None) (stored_ids s now (FOLDERS_INDEX_key uid))"
  proof
    assume ok: "folder_keys_ok s"
    show "map folder_id (getAllFolders s now uid) =
        filter (\<lambda>fid. stored_folder s now fid \<noteq> None) (stored_ids s now (FOLDERS_INDEX_key uid))"
      unfolding b
      by (rule map_id_map_filter) (rule folder_keys_ok_getFolder [OF ok, of now], simp add: gf)
  qed
  have m1: "c \<in> set (getAllCiphers s now uid) \<longleftrightarrow>
      (\<exists>cid \<in> set (stored_ids s now (CIPHERS_INDEX_key uid)). stored_cipher s now cid = Some c)"
    unfolding a by (simp add: set_map_filter)
  have m2: "f \<in> set (getAllFolders s now uid) \<longleftrightarrow>
      (\<exists>fid \<in> set (stored_ids s now (FOLDERS_INDEX_key uid)). stored_folder s now fid = Some f)"
    unfolding b by (simp add: set_map_filter)
  from a b m1 m2 i1 i2 show ?thesis by blast
qed

lemma kv_get_saveCipher:
  "kv_get (saveCipher s now c) t k =
     (if k = CIPHERS_INDEX_key (cipher_userId c) \<and>
         cipher_id c \<notin> set (getCipherIds s now (cipher_userId c))
      then Some (VIds (getCipherIds s now (cipher_userId c) @ [cipher_id c]))
      else if k = CIPHER_key (cipher_id c) then Some (VCipher c)
      else kv_get s t k)"
  by (simp add: kv_get_def kv_saveCipher)

lemma kv_get_saveFolder:
  "kv_get (saveFolder s now f) t k =
     (if k = FOLDERS_INDEX_key (folder_userId f) \<and>
         folder_id f \<notin> set (getFolderIds s now (folder_userId f))
      then Some (VIds (getFolderIds s now (folder_userId f) @ [folder_id f]))
      else if k = FOLDER_key (folder_id f) then Some (VFolder f)
      else kv_get s t k)"
  by (simp add: kv_get_def kv_saveFolder)

lemma kv_get_empty [simp]: "kv_get empty_store t k = None"
  by (simp add: kv_get_def empty_store_def)

lemma cipher_keys_ok_example: "cipher_keys_ok example_store"
proof -
  let ?s2 = "saveCipher (saveCipher empty_store 0 (example_cipher ''c1'' ''u1'' None)) 0
        (example_cipher ''c2'' ''u1'' None)"
  have "cipher_keys_ok ?s2"
    by (intro cipher_keys_ok_saveCipher cipher_keys_ok_empty)
  then show ?thesis
    unfolding example_store_def
    by (rule cipher_keys_ok_frame) (simp add: kv_saveFolder key_defs)
qed

lemma folder_keys_ok_example: "folder_keys_ok example_store"
proof -
  let ?s2 = "saveCipher (saveCipher empty_store 0 (example_cipher ''c1'' ''u1'' None)) 0
        (example_cipher ''c2'' ''u1'' None)"
  let ?s4 = "saveFolder (saveFolder ?s2 0 (example_folder ''f1'' ''u1'')) 0
        (example_folder ''f2'' ''u1'')"
  have "folder_keys_ok ?s2"
    by (rule folder_keys_ok_frame [OF folder_keys_ok_empty]) (simp add: kv_saveCipher key_defs)
  then have "folder_keys_ok ?s4"
    by (intro folder_keys_ok_saveFolder)
  then show ?thesis
    unfolding example_store_def
    by (rule folder_keys_ok_frame) simp
qed

lemma example_store_reads:
  "kv_get example_store t (CIPHERS_INDEX_key ''u1'') = Some (VIds [''c1'', ''c2''])"
  "kv_get example_store t (FOLDERS_INDEX_key ''u1'') = Some (VIds [''f1'', ''f2''])"
  "kv_get example_store t (CIPHER_key ''c1'') = Some (VCipher (example_cipher ''c1'' ''u1'' None))"
  "kv_get example_store t (CIPHER_key ''c2'') = None"
  "kv_get example_store t (FOLDER_key ''f1'') = Some (VFolder (example_folder ''f1'' ''u1''))"
  "kv_get example_store t (FOLDER_key ''f2'') = None"
  by (simp_all add: example_store_def kv_get_saveCipher kv_get_saveFolder getCipherIds_def
      getFolderIds_def key_defs)

text \<open>
  In the example store the indexes list two ciphers and two folders, the second of each
  has no record: the first cipher and the first folder alone are returned.
\<close>

theorem getAll_exact_witness:
  "cipher_keys_ok example_store \<and> folder_keys_ok example_store \<and>
   kv_get example_store 5 (CIPHERS_INDEX_key ''u1'') = Some (VIds [''c1'', ''c2'']) \<and>
   kv_get example_store 5 (FOLDERS_INDEX_key ''u1'') = Some (VIds [''f1'', ''f2'']) \<and>
   kv_get example_store 5 (CIPHER_key ''c2'') = None \<and>
   kv_get example_store 5 (FOLDER_key ''f2'') = None \<and>
   getAllCiphers example_store 5 ''u1'' = [example_cipher ''c1'' ''u1'' None] \<and>
   getAllFolders example_store 5 ''u1'' = [example_folder ''f1'' ''u1''] \<and>
   map cipher_id (getAllCiphers example_store 5 ''u1'') = [''c1''] \<and>
   map folder_id (getAllFolders example_store 5 ''u1'') = [''f1'']"
proof -
  note r = example_store_reads [of 5]
  note T = getAll_exact [of example_store 5 "''u1''"]
  from T r have c: "getAllCiphers example_store 5 ''u1'' = [example_cipher ''c1'' ''u1'' None]"
    by (simp add: List.map_filter_simps)
  from T r have f: "getAllFolders example_store 5 ''u1'' = [example_folder ''f1'' ''u1'']"
    by (simp add: List.map_filter_simps)
  from T cipher_keys_ok_example r
  have ci: "map cipher_id (getAllCiphers example_store 5 ''u1'') = [''c1'']"
    by simp
  from T folder_keys_ok_example r
  have fi: "map folder_id (getAllFolders example_store 5 ''u1'') = [''f1'']"
    by simp
  from cipher_keys_ok_example folder_keys_ok_example r(1,2,4,6) c f ci fi
  show ?thesis by blast
qed

end
